theory Spec2Isabelle
  imports Main
begin

section \<open>JavaScript values handled by the queue\<close>

text \<open>
  The values a caller can hand to \<^verbatim>\<open>add\<close>. A thenable is described by how it settles, a
  function by what a call with no argument does. \<open>ErrorObj m\<close> is \<^verbatim>\<open>new Error(m)\<close>,
  \<open>TypeErrorObj\<close> the \<^verbatim>\<open>TypeError\<close> the \<^verbatim>\<open>in\<close> operator raises on a primitive, \<open>Obj\<close> an
  object with no \<^verbatim>\<open>then\<close> property.
\<close>

datatype val =
    Undefined
  | Null
  | Bool bool
  | Num int
  | Str string
  | Obj
  | ErrorObj string
  | TypeErrorObj
  | Thenable settle
  | Fn fres
  | Arr "val list"
and settle = Resolves val | Rejects val | Never
and fres = Returns val | Throws val

text \<open>JavaScript truthiness, as \<^verbatim>\<open>if (self._queue[i])\<close> tests it.\<close>

fun truthy :: "val \<Rightarrow> bool" where
  "truthy Undefined = False"
| "truthy Null = False"
| "truthy (Bool b) = b"
| "truthy (Num n) = (n \<noteq> 0)"
| "truthy (Str s) = (s \<noteq> [])"
| "truthy Obj = True"
| "truthy (ErrorObj m) = True"
| "truthy TypeErrorObj = True"
| "truthy (Thenable st) = True"
| "truthy (Fn f) = True"
| "truthy (Arr xs) = True"

text \<open>\<^verbatim>\<open>xs[i]\<close>: reading past the end of an array gives \<^verbatim>\<open>undefined\<close>.\<close>

definition js_index :: "val list \<Rightarrow> nat \<Rightarrow> val" where
  "js_index xs i = (if i < length xs then xs ! i else Undefined)"

text \<open>\<^verbatim>\<open>xs.shift()\<close>: the head and the rest; \<^verbatim>\<open>undefined\<close> on an empty array.\<close>

fun shift :: "val list \<Rightarrow> val \<times> val list" where
  "shift [] = (Undefined, [])"
| "shift (x # xs) = (x, xs)"

text \<open>
  \<^verbatim>\<open>typeof promise === 'function' ? promise() : promise\<close>: \<open>Inl\<close> is the exception a
  factory throws.
\<close>

fun invoke :: "val \<Rightarrow> val + val" where
  "invoke (Fn (Returns v)) = Inr v"
| "invoke (Fn (Throws e)) = Inl e"
| "invoke v = Inr v"

section \<open>The asynchronous-value primitive\<close>

text \<open>
  How a value handed to \<^verbatim>\<open>BlueBird.all\<close>, or to the \<^verbatim>\<open>resolve\<close> of a promise, settles. A
  thenable that resolves with another thenable is followed to where that one settles; a
  thenable that rejects does so with the reason it gives, whatever that is; anything that
  is not a thenable is taken as an already resolved value.
\<close>

fun outcome_of :: "val \<Rightarrow> settle" where
  "outcome_of (Thenable (Resolves (Thenable st))) = outcome_of (Thenable st)"
| "outcome_of (Thenable st) = st"
| "outcome_of v = Resolves v"

datatype all_result = AllResolved "val list" | AllRejected val | AllPending

fun first_rejection :: "val list \<Rightarrow> val option" where
  "first_rejection [] = None"
| "first_rejection (p # ps) =
     (case outcome_of p of Rejects e \<Rightarrow> Some e | _ \<Rightarrow> first_rejection ps)"

fun resolved_values :: "val list \<Rightarrow> val list option" where
  "resolved_values [] = Some []"
| "resolved_values (p # ps) =
     (case outcome_of p of
        Resolves v \<Rightarrow> (case resolved_values ps of Some vs \<Rightarrow> Some (v # vs) | None \<Rightarrow> None)
      | _ \<Rightarrow> None)"

text \<open>
  \<^verbatim>\<open>BlueBird.all(promises)\<close>: rejected as soon as one element rejects (the first in array
  order stands for the first in time), resolved with the values in array order when all
  resolve, pending for ever otherwise.
\<close>

definition all_outcome :: "val list \<Rightarrow> all_result" where
  "all_outcome ps =
     (case first_rejection ps of
        Some e \<Rightarrow> AllRejected e
      | None \<Rightarrow> (case resolved_values ps of Some vs \<Rightarrow> AllResolved vs | None \<Rightarrow> AllPending))"

section \<open>The queue object and its environment\<close>

text \<open>
  A callback is the default \<^verbatim>\<open>function() {}\<close>, a function of the caller's, or the
  \<^verbatim>\<open>resolve\<close>/\<^verbatim>\<open>reject\<close> of the promise a call of \<^verbatim>\<open>start\<close> returned.
\<close>

datatype callback = Noop | User nat | Resolve nat | Reject nat

text \<open>
  The state of a promise returned by \<^verbatim>\<open>start\<close>. \<open>Locked\<close> is a promise resolved with a
  thenable that never settles: it stays pending for ever and \<^verbatim>\<open>resolve\<close> and \<^verbatim>\<open>reject\<close> no
  longer act on it.
\<close>

datatype pstate = Pending | Fulfilled val | Rejected val | Locked

text \<open>
  The constructor's \<^verbatim>\<open>options\<close>. The numeric options have the documented type
  \<^verbatim>\<open>Integer\<close>; \<open>None\<close> is a property that is absent (\<^verbatim>\<open>undefined\<close>).
\<close>

record options =
  opt_concurrency :: "int option"
  opt_delay :: "int option"
  opt_interval :: "int option"
  opt_onComplete :: "callback option"
  opt_onError :: "callback option"

text \<open>
  One chain \<^verbatim>\<open>BlueBird.all(promises).delay(d).spread(f).catch(self.onError)\<close>: the array,
  the delay, and the error callback read when the chain was built.
\<close>

record batch =
  b_promises :: "val list"
  b_delay :: int
  b_onError :: callback
  b_settled :: bool

text \<open>
  The fields of \<^verbatim>\<open>BlueBirdQueue\<close>, followed by what the object has handed to its
  environment: the callbacks given to \<^verbatim>\<open>process.nextTick\<close> that have not run, the live
  timeouts (handle and delay), the chains built so far, the promises returned by
  \<^verbatim>\<open>start\<close>, and every callback invocation in order.
\<close>

record bqueue =
  concurrency :: int
  delay :: int
  interval :: int
  onComplete :: callback
  onError :: callback
  queue :: "val list"
  queueWaiting :: "nat list"
  processed :: "val list"
  working :: bool
  ticks :: nat
  timers :: "(nat \<times> int) list"
  nextTimer :: nat
  batches :: "batch list"
  promises :: "pstate list"
  calls :: "(callback \<times> val) list"

text \<open>\<^verbatim>\<open>a || b\<close> on an integer option: \<^verbatim>\<open>undefined\<close> and \<^verbatim>\<open>0\<close> are falsy.\<close>

fun or_int :: "int option \<Rightarrow> int \<Rightarrow> int" where
  "or_int None d = d"
| "or_int (Some n) d = (if n = 0 then d else n)"

text \<open>\<^verbatim>\<open>a || b\<close> on a callback option: a function is truthy.\<close>

fun or_cb :: "callback option \<Rightarrow> callback \<Rightarrow> callback" where
  "or_cb None d = d"
| "or_cb (Some f) d = f"

definition no_options :: options where
  "no_options =
     \<lparr>opt_concurrency = None, opt_delay = None, opt_interval = None,
      opt_onComplete = None, opt_onError = None\<rparr>"

text \<open>\<^verbatim>\<open>new BlueBirdQueue(options)\<close>; \<open>None\<close> is a call with no argument.\<close>

definition BlueBirdQueue :: "options option \<Rightarrow> bqueue" where
  "BlueBirdQueue options =
     (let opts = (case options of None \<Rightarrow> no_options | Some o' \<Rightarrow> o') in
      \<lparr>concurrency = or_int (opt_concurrency opts) 4,
       delay = or_int (opt_delay opts) 0,
       interval = or_int (opt_interval opts) 5000,
       onComplete = or_cb (opt_onComplete opts) Noop,
       onError = or_cb (opt_onError opts) Noop,
       queue = [],
       queueWaiting = [],
       processed = [],
       working = False,
       ticks = 0,
       timers = [],
       nextTimer = 0,
       batches = [],
       promises = [],
       calls = []\<rparr>)"

text \<open>
  Invoking a callback. A promise settles once: \<^verbatim>\<open>resolve\<close> and \<^verbatim>\<open>reject\<close> do nothing to
  a promise that is no longer pending. Callbacks of the caller are opaque: they neither
  throw nor call back into the queue.
\<close>

definition settle_promise :: "nat \<Rightarrow> pstate \<Rightarrow> pstate list \<Rightarrow> pstate list" where
  "settle_promise p st ps =
     (if p < length ps \<and> ps ! p = Pending then ps[p := st] else ps)"

text \<open>What \<^verbatim>\<open>resolve(v)\<close> makes of a pending promise: a thenable is followed.\<close>

definition resolution :: "val \<Rightarrow> pstate" where
  "resolution v =
     (case outcome_of v of Resolves w \<Rightarrow> Fulfilled w | Rejects e \<Rightarrow> Rejected e | Never \<Rightarrow> Locked)"

fun call :: "callback \<Rightarrow> val \<Rightarrow> bqueue \<Rightarrow> bqueue" where
  "call Noop v s = s\<lparr>calls := calls s @ [(Noop, v)]\<rparr>"
| "call (User k) v s = s\<lparr>calls := calls s @ [(User k, v)]\<rparr>"
| "call (Resolve p) v s =
     s\<lparr>promises := settle_promise p (resolution v) (promises s),
       calls := calls s @ [(Resolve p, v)]\<rparr>"
| "call (Reject p) v s =
     s\<lparr>promises := settle_promise p (Rejected v) (promises s),
       calls := calls s @ [(Reject p, v)]\<rparr>"

section \<open>The operations\<close>

text \<open>
  The loop of \<^verbatim>\<open>_dequeue\<close>:
  \<^verbatim>\<open>for (var i = 0; i < self.concurrency; i++) { if (self._queue[i]) { ... shift ... } }\<close>.
  The guard reads element \<open>i\<close> of the queue as it is by then, and \<^verbatim>\<open>shift\<close> removes the
  head. The result is the queue as the loop leaves it, with the array \<^verbatim>\<open>promises\<close>, or with
  the exception a factory threw.
\<close>

function dequeue_loop ::
  "nat \<Rightarrow> int \<Rightarrow> val list \<Rightarrow> val list \<Rightarrow> val list \<times> (val + val list)" where
  "dequeue_loop i c q ps =
     (if int i < c then
        (if truthy (js_index q i) then
           (case invoke (fst (shift q)) of
              Inl ex \<Rightarrow> (snd (shift q), Inl ex)
            | Inr v \<Rightarrow> dequeue_loop (Suc i) c (snd (shift q)) (ps @ [v]))
         else dequeue_loop (Suc i) c q ps)
      else (q, Inr ps))"
  by pat_completeness auto
termination
  by (relation "measure (\<lambda>(i, c, q, ps). nat (c - int i))") auto

text \<open>
  \<^verbatim>\<open>_dequeue\<close>. The busy flag is set before the loop; the \<^verbatim>\<open>catch\<close> clears it and calls the
  error callback, an empty array \<^verbatim>\<open>promises\<close> clears it, and otherwise the chain is built
  and the flag stays set.
\<close>

definition dequeue :: "bqueue \<Rightarrow> bqueue" where
  "dequeue s =
     (if working s then
        s\<lparr>queueWaiting := queueWaiting s @ [nextTimer s],
          timers := timers s @ [(nextTimer s, interval s)],
          nextTimer := Suc (nextTimer s)\<rparr>
      else
        (case dequeue_loop 0 (concurrency s) (queue s) [] of
           (q', Inl ex) \<Rightarrow> call (onError s) ex (s\<lparr>queue := q', working := False\<rparr>)
         | (q', Inr ps) \<Rightarrow>
             if ps = [] then s\<lparr>queue := q', working := False\<rparr>
             else s\<lparr>queue := q', working := True,
                    batches := batches s @
                      [\<lparr>b_promises = ps, b_delay = delay s, b_onError = onError s,
                        b_settled = False\<rparr>]\<rparr>))"

declare dequeue_loop.simps [simp del]

text \<open>
  \<^verbatim>\<open>'then' in func\<close>: the operator raises a \<^verbatim>\<open>TypeError\<close> when its right operand is not an
  object.
\<close>

fun has_then :: "val \<Rightarrow> val + bool" where
  "has_then Undefined = Inl TypeErrorObj"
| "has_then Null = Inl TypeErrorObj"
| "has_then (Bool b) = Inl TypeErrorObj"
| "has_then (Num n) = Inl TypeErrorObj"
| "has_then (Str s) = Inl TypeErrorObj"
| "has_then (Thenable st) = Inr True"
| "has_then v = Inr False"

fun is_array :: "val \<Rightarrow> bool" where
  "is_array (Arr xs) = True"
| "is_array v = False"

fun elements :: "val \<Rightarrow> val list" where
  "elements (Arr xs) = xs"
| "elements v = []"

fun is_function :: "val \<Rightarrow> bool" where
  "is_function (Fn f) = True"
| "is_function v = False"

text \<open>
  \<^verbatim>\<open>add\<close>. \<open>Inl (ex, s')\<close> is the exception \<open>ex\<close> thrown to the caller, the object being in
  state \<open>s'\<close> at that moment; \<open>Inr s'\<close> is a normal return.
\<close>

definition add :: "val \<Rightarrow> bqueue \<Rightarrow> (val \<times> bqueue) + bqueue" where
  "add func s =
     (if is_array func then Inr (s\<lparr>queue := queue s @ elements func\<rparr>)
      else if is_function func then Inr (s\<lparr>queue := queue s @ [func]\<rparr>)
      else (case has_then func of
              Inl ex \<Rightarrow> Inl (ex, s)
            | Inr True \<Rightarrow> Inr (s\<lparr>queue := queue s @ [func]\<rparr>)
            | Inr False \<Rightarrow> Inl (ErrorObj ''No promises were provided'', s)))"

text \<open>\<^verbatim>\<open>addNow\<close>.\<close>

definition addNow :: "val \<Rightarrow> bqueue \<Rightarrow> (val \<times> bqueue) + bqueue" where
  "addNow func s =
     (case add func s of
        Inl thrown \<Rightarrow> Inl thrown
      | Inr s' \<Rightarrow> Inr (if \<not> working s' then dequeue s' else s'))"

text \<open>
  \<^verbatim>\<open>start\<close>: the promise it returns (its index in \<open>promises\<close>) and the state it leaves.
\<close>

definition start :: "bqueue \<Rightarrow> nat \<times> bqueue" where
  "start s =
     (let s1 = s\<lparr>ticks := Suc (ticks s)\<rparr>;
          p = length (promises s1);
          s2 = s1\<lparr>promises := promises s1 @ [Pending]\<rparr>;
          s3 = s2\<lparr>onComplete := Resolve p\<rparr>;
          s4 = s3\<lparr>onError := Reject p\<rparr>
      in (p, s4))"

text \<open>\<^verbatim>\<open>clearTimeout(h)\<close>: nothing happens when \<open>h\<close> is not a live timeout.\<close>

definition clearTimeout :: "nat \<Rightarrow> (nat \<times> int) list \<Rightarrow> (nat \<times> int) list" where
  "clearTimeout h ts = filter (\<lambda>t. fst t \<noteq> h) ts"

fun clear_waiting :: "nat list \<Rightarrow> (nat \<times> int) list \<Rightarrow> (nat \<times> int) list" where
  "clear_waiting [] ts = ts"
| "clear_waiting (h # hs) ts = clear_waiting hs (clearTimeout h ts)"

text \<open>
  The second loop of \<^verbatim>\<open>drain\<close>:
  \<^verbatim>\<open>for (i = 0; i < batches; i++) { this._working = false; this._dequeue(); }\<close>.
\<close>

function drain_loop :: "nat \<Rightarrow> int \<Rightarrow> bqueue \<Rightarrow> bqueue" where
  "drain_loop i n s =
     (if int i < n then drain_loop (Suc i) n (dequeue (s\<lparr>working := False\<rparr>)) else s)"
  by pat_completeness auto
termination
  by (relation "measure (\<lambda>(i, n, s). nat (n - int i))") auto

declare drain_loop.simps [simp del]

text \<open>
  \<^verbatim>\<open>drain\<close>. \<^verbatim>\<open>Math.floor(length / concurrency)\<close> is \<^verbatim>\<open>Infinity\<close> when the concurrency is 0 and
  the queue is not empty, and the loop over the batches then never ends: \<open>None\<close>.
  \<^verbatim>\<open>_dequeue\<close> catches every exception itself, so the \<^verbatim>\<open>catch\<close> of \<^verbatim>\<open>drain\<close> is never entered.
\<close>

definition drain :: "bqueue \<Rightarrow> bqueue option" where
  "drain s =
     (if queue s = [] then Some s
      else if concurrency s = 0 then None
      else
        (let s1 = s\<lparr>timers := clear_waiting (queueWaiting s) (timers s)\<rparr>;
             s2 = s1\<lparr>queueWaiting := []\<rparr>;
             n = int (length (queue s2)) div concurrency s2
         in Some (if n = 0 then dequeue (s2\<lparr>working := False\<rparr>) else drain_loop 0 n s2)))"

section \<open>What the environment calls back\<close>

text \<open>
  The function given to \<^verbatim>\<open>spread\<close>, called with the values the batch resolved to.
\<close>

definition on_fulfilled :: "val list \<Rightarrow> bqueue \<Rightarrow> bqueue" where
  "on_fulfilled args s =
     (let s1 = s\<lparr>processed := processed s @ args\<rparr>;
          s2 = (if queue s1 = [] \<and> queueWaiting s1 = []
                then call (onComplete s1) (Arr (processed s1)) s1 else s1);
          s3 = s2\<lparr>working := False\<rparr>
      in if queue s3 \<noteq> [] \<and> queueWaiting s3 = [] then dequeue s3 else s3)"

text \<open>
  The chain of batch \<open>k\<close> settles: \<^verbatim>\<open>spread\<close> runs its function when the combined value
  resolved, \<^verbatim>\<open>catch\<close> runs the error callback the chain was built with when it rejected.
\<close>

definition settle_batch :: "nat \<Rightarrow> bqueue \<Rightarrow> bqueue" where
  "settle_batch k s =
     (let b = batches s ! k;
          s' = s\<lparr>batches := (batches s)[k := b\<lparr>b_settled := True\<rparr>]\<rparr>
      in case all_outcome (b_promises b) of
           AllResolved vs \<Rightarrow> on_fulfilled vs s'
         | AllRejected e \<Rightarrow> call (b_onError b) e s'
         | AllPending \<Rightarrow> s)"

datatype event = Tick | BatchSettles nat | TimerFires nat

definition can_settle :: "batch \<Rightarrow> bool" where
  "can_settle b = (\<not> b_settled b \<and> all_outcome (b_promises b) \<noteq> AllPending)"

fun fire :: "event \<Rightarrow> bqueue \<Rightarrow> bqueue" where
  "fire Tick s = dequeue (s\<lparr>ticks := ticks s - 1\<rparr>)"
| "fire (BatchSettles k) s = settle_batch k s"
| "fire (TimerFires h) s = dequeue (s\<lparr>timers := clearTimeout h (timers s)\<rparr>)"

text \<open>
  Everything the environment may run next: a callback of \<^verbatim>\<open>process.nextTick\<close> (which
  Node runs before anything else), a chain whose combined value has settled, a live
  timeout. Time is not modelled: the order of chains and timeouts in this list is a
  choice, which plays no part while at most one event is pending, as on the graceful
  path.
\<close>

definition pending_events :: "bqueue \<Rightarrow> event list" where
  "pending_events s =
     (if 0 < ticks s then [Tick] else []) @
     map BatchSettles (filter (\<lambda>k. can_settle (batches s ! k)) [0..<length (batches s)]) @
     map (\<lambda>t. TimerFires (fst t)) (timers s)"

text \<open>
  The scheduling loop, with fuel: it runs the first pending event until none is left;
  \<open>None\<close> when the fuel runs out first.
\<close>

fun run :: "nat \<Rightarrow> bqueue \<Rightarrow> bqueue option" where
  "run 0 s = (if pending_events s = [] then Some s else None)"
| "run (Suc n) s =
     (case pending_events s of [] \<Rightarrow> Some s | e # es \<Rightarrow> run n (fire e s))"

section \<open>Callers\<close>

text \<open>
  A caller that adds the items one by one, as the test suite does in a loop; the first
  exception ends it.
\<close>

fun add_each :: "val list \<Rightarrow> bqueue \<Rightarrow> (val \<times> bqueue) + bqueue" where
  "add_each [] s = Inr s"
| "add_each (x # xs) s =
     (case add x s of Inl thrown \<Rightarrow> Inl thrown | Inr s' \<Rightarrow> add_each xs s')"

text \<open>
  The value a work item produces: a factory is called and what it returns is awaited, a
  thenable is awaited. \<open>None\<close> for a value that is neither, for a factory that throws
  and for an asynchronous value that rejects or stays pending.
\<close>

definition value_of :: "val \<Rightarrow> val option" where
  "value_of x =
     (if is_function x \<or> has_then x = Inr True then
        (case invoke x of
           Inl ex \<Rightarrow> None
         | Inr p \<Rightarrow> (case outcome_of p of Resolves v \<Rightarrow> Some v | _ \<Rightarrow> None))
      else None)"

text \<open>\<^verbatim>\<open>deadPromise.bind(null, v)\<close> of the test suite: a factory of a promise resolved with \<open>v\<close>.\<close>

definition deadPromise :: "val \<Rightarrow> val" where
  "deadPromise v = Fn (Returns (Thenable (Resolves v)))"

text \<open>The two shapes of a work item: a function, or an object with a \<^verbatim>\<open>then\<close>.\<close>

definition is_work_item :: "val \<Rightarrow> bool" where
  "is_work_item x \<longleftrightarrow> is_function x \<or> has_then x = Inr True"

text \<open>
  A work item fails with \<open>e\<close> when the factory throws \<open>e\<close> or its asynchronous value
  rejects with \<open>e\<close>; it hangs when its asynchronous value never settles.
\<close>

definition fails_with :: "val \<Rightarrow> val \<Rightarrow> bool" where
  "fails_with x e =
     (case invoke x of Inl ex \<Rightarrow> ex = e | Inr p \<Rightarrow> outcome_of p = Rejects e)"

definition hangs :: "val \<Rightarrow> bool" where
  "hangs x = (case invoke x of Inl ex \<Rightarrow> False | Inr p \<Rightarrow> outcome_of p = Never)"

text \<open>
  An object at rest: not busy, no retry recorded, no dispatch scheduled, no live timeout
  and no chain still to settle. A fresh object is at rest, and stays so under \<^verbatim>\<open>add\<close>.
\<close>

definition idle :: "bqueue \<Rightarrow> bool" where
  "idle s \<longleftrightarrow>
     \<not> working s \<and> queueWaiting s = [] \<and> ticks s = 0 \<and> timers s = [] \<and>
     (\<forall>b \<in> set (batches s). b_settled b)"

text \<open>
  A busy object holding one item, with one retry timeout outstanding: what \<^verbatim>\<open>add\<close> and a
  \<^verbatim>\<open>_dequeue\<close> during a batch leave behind.
\<close>

definition drain_example :: bqueue where
  "drain_example =
     (BlueBirdQueue None)\<lparr>queue := [deadPromise (Str ''hello'')], working := True,
        queueWaiting := [0], timers := [(0, 5000)], nextTimer := 1\<rparr>"

text \<open>The chain of one batch holding a promise resolved with \<open>v\<close>, not yet settled.\<close>

definition batch_of :: "val \<Rightarrow> batch" where
  "batch_of v =
     \<lparr>b_promises = [Thenable (Resolves v)], b_delay = 0, b_onError = Noop, b_settled = False\<rparr>"

text \<open>
  A fresh object holding one factory, with callbacks of the caller configured.
\<close>

definition one_item_configured :: bqueue where
  "one_item_configured =
     (BlueBirdQueue None)\<lparr>queue := [deadPromise (Str ''hello'')], onComplete := User 1,
        onError := User 2\<rparr>"

text \<open>
  \<^verbatim>\<open>start\<close> called on an object on which \<^verbatim>\<open>addNow\<close> has already dispatched its one item.
\<close>

definition started_after_addNow :: bqueue where
  "started_after_addNow =
     snd (start (dequeue ((BlueBirdQueue None)\<lparr>queue := [deadPromise (Str ''hello'')]\<rparr>)))"

text \<open>
  Eight factories on a fresh object and \<^verbatim>\<open>start\<close> called twice; then the same object after
  both scheduled dispatches, the settlement of the first batch and the retry timeout have
  run, in that order: the second batch is in flight.
\<close>

definition twice_started :: bqueue where
  "twice_started =
     snd (start (snd (start
       ((BlueBirdQueue None)\<lparr>queue := map (\<lambda>n. deadPromise (Num n)) [1, 2, 3, 4, 5, 6, 7, 8]\<rparr>))))"

definition second_batch_in_flight :: bqueue where
  "second_batch_in_flight =
     fire (TimerFires 0) (fire (BatchSettles 0) (fire Tick (fire Tick twice_started)))"

section \<open>Facts about the loops\<close>

lemma dequeue_loop_empty: "dequeue_loop i c [] ps = ([], Inr ps)"
proof (induction "nat (c - int i)" arbitrary: i)
  case 0
  then show ?case
    by (subst dequeue_loop.simps) simp
next
  case (Suc k)
  then have "k = nat (c - int (Suc i))" and "int i < c"
    by simp_all
  with Suc.hyps(1) show ?case
    by (subst dequeue_loop.simps) (simp add: js_index_def)
qed

lemma clear_waiting_filter: "clear_waiting hs ts = filter (\<lambda>t. fst t \<notin> set hs) ts"
proof (induction hs arbitrary: ts)
  case Nil
  show ?case by simp
next
  case (Cons h hs)
  have "filter (\<lambda>t. fst t \<notin> set hs) (filter (\<lambda>t. fst t \<noteq> h) ts) =
        filter (\<lambda>t. fst t \<notin> set (h # hs)) ts"
    by (induction ts) auto
  with Cons show ?case
    by (simp add: clearTimeout_def)
qed

lemma drain_loop_funpow:
  "drain_loop i n s = ((\<lambda>t. dequeue (t\<lparr>working := False\<rparr>)) ^^ nat (n - int i)) s"
proof (induction i n s rule: drain_loop.induct)
  case (1 i n s)
  let ?f = "\<lambda>t. dequeue (t\<lparr>working := False\<rparr>)"
  show ?case
  proof (cases "int i < n")
    case True
    then have "nat (n - int i) = Suc (nat (n - int (Suc i)))"
      by simp
    then have "(?f ^^ nat (n - int i)) s = (?f ^^ nat (n - int (Suc i))) (?f s)"
      by (simp only: funpow_Suc_right o_apply)
    moreover have "drain_loop i n s = drain_loop (Suc i) n (?f s)"
      using True by (subst drain_loop.simps) simp
    ultimately show ?thesis
      using "1.IH" [OF True] by simp
  next
    case False
    then show ?thesis
      by (subst drain_loop.simps) simp
  qed
qed

lemma or_int_nonzero: "d \<noteq> 0 \<Longrightarrow> or_int x d \<noteq> 0"
  by (cases x) simp_all

section \<open>Facts about callbacks, batches and the scheduling loop\<close>

lemma calls_call: "calls (call cb v s) = calls s @ [(cb, v)]"
  by (cases cb) simp_all

lemma call_fields:
  "queue (call cb v s) = queue s" "processed (call cb v s) = processed s"
  "working (call cb v s) = working s" "queueWaiting (call cb v s) = queueWaiting s"
  "batches (call cb v s) = batches s" "timers (call cb v s) = timers s"
  "ticks (call cb v s) = ticks s" "concurrency (call cb v s) = concurrency s"
  "onComplete (call cb v s) = onComplete s" "onError (call cb v s) = onError s"
  "delay (call cb v s) = delay s" "interval (call cb v s) = interval s"
  "nextTimer (call cb v s) = nextTimer s"
  by (cases cb; simp)+

lemma call_working_update: "(call cb v s)\<lparr>working := b\<rparr> = call cb v (s\<lparr>working := b\<rparr>)"
  by (cases cb) simp_all

lemma resolution_array: "resolution (Arr xs) = Fulfilled (Arr xs)"
  by (simp add: resolution_def)

lemma promises_call_cong:
  "promises s = promises t \<Longrightarrow> promises (call cb v s) = promises (call cb v t)"
  by (cases cb) simp_all

lemma resolved_values_outcomes:
  "resolved_values ps = Some vs \<Longrightarrow> map outcome_of ps = map Resolves vs"
  by (induction ps arbitrary: vs) (auto split: settle.splits option.splits)

lemma all_outcome_resolved:
  "all_outcome ps = AllResolved vs \<Longrightarrow> map outcome_of ps = map Resolves vs"
  by (auto simp: all_outcome_def resolved_values_outcomes split: option.splits)

lemma outcomes_all_resolved:
  "map outcome_of ps = map Resolves vs \<Longrightarrow> all_outcome ps = AllResolved vs"
proof -
  assume h: "map outcome_of ps = map Resolves vs"
  then have "first_rejection ps = None \<and> resolved_values ps = Some vs"
    by (induction ps arbitrary: vs) auto
  then show ?thesis
    by (simp add: all_outcome_def)
qed

lemma value_of_SomeD:
  "value_of x = Some v \<Longrightarrow> truthy x \<and> (\<exists>p. invoke x = Inr p \<and> outcome_of p = Resolves v)"
  by (cases x) (auto simp: value_of_def split: if_splits sum.splits settle.splits)

lemma values_invoked:
  "map value_of q = map Some vs \<Longrightarrow>
   (\<forall>x \<in> set q. truthy x) \<and>
   (\<exists>rs. map invoke q = map Inr rs \<and> map outcome_of rs = map Resolves vs)"
proof (induction q arbitrary: vs)
  case Nil
  then show ?case by simp
next
  case (Cons x q)
  then obtain v vs' where vs: "vs = v # vs'" "value_of x = Some v" "map value_of q = map Some vs'"
    by (cases vs) auto
  from Cons.IH [OF vs(3)] obtain rs where
    rs: "\<forall>x \<in> set q. truthy x" "map invoke q = map Inr rs" "map outcome_of rs = map Resolves vs'"
    by blast
  from value_of_SomeD [OF vs(2)] obtain p where
    p: "truthy x" "invoke x = Inr p" "outcome_of p = Resolves v"
    by blast
  have "map invoke (x # q) = map Inr (p # rs) \<and> map outcome_of (p # rs) = map Resolves vs"
    using p rs vs by simp
  with p rs show ?case
    by (metis set_ConsD)
qed

lemma dequeue_loop_take:
  assumes "\<forall>x \<in> set q. truthy x" and "map invoke q = map Inr rs"
  shows "dequeue_loop i c q ps =
           (drop (min (nat c - i) ((length q - i + 1) div 2)) q,
            Inr (ps @ take (min (nat c - i) ((length q - i + 1) div 2)) rs))"
  using assms
proof (induction i c q ps arbitrary: rs rule: dequeue_loop.induct)
  case (1 i c q ps)
  show ?case
  proof (cases "int i < c")
    case False
    then have "nat c - i = 0" by simp
    with False show ?thesis
      by (subst dequeue_loop.simps) simp
  next
    case True
    show ?thesis
    proof (cases "i < length q")
      case False
      then have nt: "\<not> truthy (js_index q i)"
        by (simp add: js_index_def)
      have z: "(length q - i + 1) div 2 = 0" "(length q - Suc i + 1) div 2 = 0"
        using False by simp_all
      have "dequeue_loop i c q ps = dequeue_loop (Suc i) c q ps"
        using True nt by (subst dequeue_loop.simps) simp
      also have "\<dots> = (q, Inr ps)"
        using "1.IH"(2) [OF True nt "1.prems"] z by simp
      finally show ?thesis
        using z by simp
    next
      case lt: True
      then obtain x q' where q: "q = x # q'"
        by (cases q) auto
      then obtain r rs' where rs: "rs = r # rs'" "invoke x = Inr r" "map invoke q' = map Inr rs'"
        using "1.prems"(2) by (cases rs) auto
      have tr: "truthy (js_index q i)"
        using lt "1.prems"(1) by (simp add: js_index_def)
      have good': "\<forall>x \<in> set q'. truthy x"
        using "1.prems"(1) q by simp
      have inv: "invoke (fst (shift q)) = Inr r" "snd (shift q) = q'"
        using q rs by simp_all
      have step: "dequeue_loop i c q ps = dequeue_loop (Suc i) c q' (ps @ [r])"
        using True tr inv by (subst dequeue_loop.simps) simp
      have ih: "dequeue_loop (Suc i) c q' (ps @ [r]) =
          (drop (min (nat c - Suc i) ((length q' - Suc i + 1) div 2)) q',
           Inr ((ps @ [r]) @ take (min (nat c - Suc i) ((length q' - Suc i + 1) div 2)) rs'))"
        using "1.IH"(1) [OF True tr inv(1), of rs'] good' inv(2) rs(3) by simp
      have k: "min (nat c - i) ((length q - i + 1) div 2) =
          Suc (min (nat c - Suc i) ((length q' - Suc i + 1) div 2))"
      proof -
        have "nat c - i = Suc (nat c - Suc i)"
          using True by linarith
        moreover have "(length q - i + 1) div 2 = Suc ((length q' - Suc i + 1) div 2)"
          using lt q by (cases "i = length q'") (simp_all add: Suc_diff_le)
        ultimately show ?thesis
          by simp
      qed
      show ?thesis
        unfolding step ih k using q rs by simp
    qed
  qed
qed

lemma dequeue_calls:
  "calls (dequeue t) = calls t \<or> (\<exists>ex. calls (dequeue t) = calls t @ [(onError t, ex)])"
proof (cases "working t")
  case True
  then show ?thesis
    by (simp add: dequeue_def)
next
  case False
  obtain q' r where loop: "dequeue_loop 0 (concurrency t) (queue t) [] = (q', r)"
    by (cases "dequeue_loop 0 (concurrency t) (queue t) []") auto
  show ?thesis
  proof (cases r)
    case (Inl ex)
    with False loop show ?thesis
      by (simp add: dequeue_def calls_call)
  next
    case (Inr ps)
    with False loop show ?thesis
      by (simp add: dequeue_def)
  qed
qed

lemma run_more: "run n s = Some s' \<Longrightarrow> run (n + m) s = Some s'"
proof (induction n arbitrary: s)
  case 0
  then show ?case
    by (cases m) (auto split: if_splits)
next
  case (Suc n)
  then show ?case
    by (cases "pending_events s") auto
qed

lemma only_last_can_settle:
  assumes "\<forall>b \<in> set bs. b_settled b" and "can_settle b"
  shows "filter (\<lambda>k. can_settle ((bs @ [b]) ! k)) [0..<length (bs @ [b])] = [length bs]"
proof -
  have "filter (\<lambda>k. can_settle ((bs @ [b]) ! k)) [0..<length bs] = []"
    using assms(1) by (auto simp: filter_empty_conv nth_append can_settle_def)
  then show ?thesis
    using assms(2) by simp
qed

lemma none_can_settle:
  assumes "\<forall>b \<in> set bs. b_settled b"
  shows "filter (\<lambda>k. can_settle (bs ! k)) [0..<length bs] = []"
  using assms by (auto simp: filter_empty_conv can_settle_def)

lemma idle_quiet: "idle s \<Longrightarrow> pending_events s = []"
  by (simp add: idle_def pending_events_def none_can_settle)

lemma dequeue_first_batch:
  assumes "\<not> working s" and "0 < concurrency s" and "queue s \<noteq> []"
    and "\<forall>x \<in> set (queue s). truthy x" and "map invoke (queue s) = map Inr rs"
  defines "k \<equiv> min (nat (concurrency s)) ((length (queue s) + 1) div 2)"
  shows "0 < k \<and> k \<le> length (queue s) \<and>
         dequeue s =
           s\<lparr>queue := drop k (queue s), working := True,
             batches := batches s @
               [\<lparr>b_promises = take k rs, b_delay = delay s, b_onError = onError s,
                 b_settled = False\<rparr>]\<rparr>"
proof -
  have len: "length rs = length (queue s)"
    using assms(5) by (metis length_map)
  have pos: "0 < length (queue s)"
    using assms(3) by simp
  have k: "0 < k" "k \<le> length (queue s)"
    using assms(2) pos by (auto simp: k_def min_def)
  have "take k rs \<noteq> []"
    using k len pos by auto
  moreover have "dequeue_loop 0 (concurrency s) (queue s) [] = (drop k (queue s), Inr (take k rs))"
    using dequeue_loop_take [OF assms(4,5), of 0 "concurrency s" "[]"] by (simp add: k_def)
  ultimately show ?thesis
    using assms(1) k by (simp add: dequeue_def)
qed

lemma graceful_rounds:
  assumes "idle s" and "0 < concurrency s" and "queue s \<noteq> []"
    and "map value_of (queue s) = map Some vs"
  shows "\<exists>n s'. n \<le> length (queue s) \<and> run n (dequeue s) = Some s' \<and>
           queue s' = [] \<and> processed s' = processed s @ vs \<and>
           calls s' = calls s @ [(onComplete s, Arr (processed s @ vs))] \<and>
           promises s' = promises (call (onComplete s) (Arr (processed s @ vs)) s) \<and>
           idle s'"
  using assms
proof (induction "length (queue s)" arbitrary: s vs rule: less_induct)
  case less
  let ?q = "queue s"
  from values_invoked [OF less.prems(4)] obtain rs where
    rs: "\<forall>x \<in> set ?q. truthy x" "map invoke ?q = map Inr rs" "map outcome_of rs = map Resolves vs"
    by blast
  define k where "k = min (nat (concurrency s)) ((length ?q + 1) div 2)"
  define b where "b = \<lparr>b_promises = take k rs, b_delay = delay s, b_onError = onError s,
    b_settled = False\<rparr>"
  define s1 where "s1 = s\<lparr>queue := drop k ?q, working := True, batches := batches s @ [b]\<rparr>"
  have nw: "\<not> working s" and idle_s: "queueWaiting s = []" "ticks s = 0" "timers s = []"
    "\<forall>b \<in> set (batches s). b_settled b"
    using less.prems(1) by (simp_all add: idle_def)
  have first: "0 < k" "k \<le> length ?q" "dequeue s = s1"
    using dequeue_first_batch [OF nw less.prems(2,3) rs(1,2)]
    by (simp_all add: k_def s1_def b_def)
  have out: "all_outcome (take k rs) = AllResolved (take k vs)"
    using rs(3) by (intro outcomes_all_resolved) (simp add: take_map [symmetric])
  have cs: "can_settle b"
    using out by (simp add: can_settle_def b_def)
  have pend: "pending_events s1 = [BatchSettles (length (batches s))]"
    using only_last_can_settle [OF idle_s(4) cs] idle_s
    by (simp add: pending_events_def s1_def)
  define t where "t = s1\<lparr>batches := batches s @ [b\<lparr>b_settled := True\<rparr>],
    processed := processed s @ take k vs, working := False\<rparr>"
  have idle_t: "idle t"
    using idle_s by (simp add: idle_def t_def s1_def)
  show ?case
  proof (cases "drop k ?q = []")
    case True
    then have all: "take k vs = vs"
      using less.prems(4) by (metis drop_eq_Nil length_map take_all)
    define s' where "s' = call (onComplete s) (Arr (processed s @ vs)) t"
    have fired: "fire (BatchSettles (length (batches s))) s1 = s'"
      using out True all idle_s
      by (simp add: settle_batch_def on_fulfilled_def Let_def s1_def b_def t_def s'_def
          call_fields call_working_update)
    have idle': "idle s'"
      using idle_t by (simp add: idle_def s'_def call_fields)
    have "run (Suc 0) (dequeue s) = Some s'"
      using first(3) pend fired idle_quiet [OF idle'] by simp
    moreover have "queue s' = []" "processed s' = processed s @ vs"
      "calls s' = calls s @ [(onComplete s, Arr (processed s @ vs))]"
      using True all by (simp_all add: s'_def call_fields calls_call t_def s1_def)
    moreover have "promises s' = promises (call (onComplete s) (Arr (processed s @ vs)) s)"
      unfolding s'_def by (rule promises_call_cong) (simp add: t_def s1_def)
    moreover have "Suc 0 \<le> length ?q"
      using less.prems(3) by (simp add: Suc_le_eq)
    ultimately show ?thesis
      using idle' by blast
  next
    case False
    have fired: "fire (BatchSettles (length (batches s))) s1 = dequeue t"
      using out False idle_s
      by (simp add: settle_batch_def on_fulfilled_def Let_def s1_def b_def t_def)
    have qt: "queue t = drop k ?q" "concurrency t = concurrency s" "processed t = processed s @ take k vs"
      "calls t = calls s" "onComplete t = onComplete s" "promises t = promises s"
      by (simp_all add: t_def s1_def)
    have shorter: "length (queue t) < length ?q"
      using first(1,2) less.prems(3) qt by simp
    have vals: "map value_of (queue t) = map Some (drop k vs)"
      using less.prems(4) qt by (simp add: drop_map [symmetric])
    from less.hyps [OF shorter idle_t _ _ vals] False less.prems(2) qt
    obtain n s' where
      run: "n \<le> length (queue t)" "run n (dequeue t) = Some s'" and
      fin: "queue s' = []" "processed s' = processed t @ drop k vs"
        "calls s' = calls t @ [(onComplete t, Arr (processed t @ drop k vs))]"
        "promises s' = promises (call (onComplete t) (Arr (processed t @ drop k vs)) t)"
        "idle s'"
      by auto
    have "run (Suc n) (dequeue s) = Some s'"
      using first(3) pend fired run(2) by simp
    moreover have "Suc n \<le> length ?q"
      using run(1) shorter by simp
    moreover have "processed s' = processed s @ vs"
      "calls s' = calls s @ [(onComplete s, Arr (processed s @ vs))]"
      using fin(2,3) qt by simp_all
    moreover have "promises s' = promises (call (onComplete s) (Arr (processed s @ vs)) s)"
      using fin(4) qt promises_call_cong [of t s] by simp
    ultimately show ?thesis
      using fin(1,5) by blast
  qed
qed

lemma graceful_run_idle:
  assumes "idle s" and "0 < concurrency s" and "queue s \<noteq> []"
    and "map value_of (queue s) = map Some vs"
    and "length (queue s) < n"
  shows "\<exists>s'. run n (snd (start s)) = Some s' \<and>
           promises s' ! fst (start s) = Fulfilled (Arr (processed s @ vs)) \<and>
           processed s' = processed s @ vs \<and>
           queue s' = [] \<and>
           calls s' = calls s @ [(Resolve (fst (start s)), Arr (processed s @ vs))] \<and>
           pending_events s' = []"
proof -
  define p where "p = length (promises s)"
  define s0 where "s0 = s\<lparr>ticks := Suc 0, promises := promises s @ [Pending],
    onComplete := Resolve p, onError := Reject p\<rparr>"
  define t where "t = s0\<lparr>ticks := 0\<rparr>"
  have idle_s: "\<not> working s" "queueWaiting s = []" "ticks s = 0" "timers s = []"
    "\<forall>b \<in> set (batches s). b_settled b"
    using assms(1) by (simp_all add: idle_def)
  have st: "start s = (p, s0)"
    using idle_s by (simp add: start_def Let_def p_def s0_def)
  have pend: "pending_events s0 = [Tick]"
    using idle_s by (simp add: pending_events_def s0_def none_can_settle)
  have fired: "fire Tick s0 = dequeue t"
    by (simp add: t_def s0_def)
  have idle_t: "idle t"
    using idle_s by (simp add: idle_def t_def s0_def)
  have t: "queue t = queue s" "concurrency t = concurrency s" "processed t = processed s"
    "calls t = calls s" "onComplete t = Resolve p" "promises t = promises s @ [Pending]"
    by (simp_all add: t_def s0_def)
  from graceful_rounds [OF idle_t, of vs] assms(2,3,4) t
  obtain m s' where
    run: "m \<le> length (queue s)" "run m (dequeue t) = Some s'" and
    fin: "queue s' = []" "processed s' = processed s @ vs"
      "calls s' = calls s @ [(Resolve p, Arr (processed s @ vs))]"
      "promises s' = promises (call (Resolve p) (Arr (processed s @ vs)) t)"
      "idle s'"
    by auto
  have "run (Suc m) s0 = Some s'"
    using pend fired run(2) by simp
  from run_more [OF this, of "n - Suc m"] have "run n s0 = Some s'"
    using run(1) assms(5) by simp
  moreover have "promises s' ! p = Fulfilled (Arr (processed s @ vs))"
    using fin(4) t(6) by (simp add: settle_promise_def p_def nth_append resolution_array)
  ultimately show ?thesis
    using fin idle_quiet [OF fin(5)] st by simp
qed

lemma add_work_item:
  "value_of x = Some v \<Longrightarrow> add x s = Inr (s\<lparr>queue := queue s @ [x]\<rparr>)"
  by (cases x) (simp_all add: value_of_def add_def)

lemma add_each_work_items:
  "map value_of items = map Some vs \<Longrightarrow>
   add_each items s = Inr (s\<lparr>queue := queue s @ items\<rparr>)"
proof (induction items arbitrary: s vs)
  case Nil
  show ?case by simp
next
  case (Cons x items)
  then obtain v vs' where "value_of x = Some v" "map value_of items = map Some vs'"
    by (cases vs) auto
  with Cons.IH [of vs' "s\<lparr>queue := queue s @ [x]\<rparr>"] show ?case
    by (simp add: add_work_item)
qed

section \<open>The graceful path with items that fail or hang\<close>

lemma work_item_truthy: "is_work_item x \<Longrightarrow> truthy x"
  by (cases x) (simp_all add: is_work_item_def)

lemma pending_events_cong:
  "ticks s = ticks t \<Longrightarrow> batches s = batches t \<Longrightarrow> timers s = timers t \<Longrightarrow>
   pending_events s = pending_events t"
  by (simp add: pending_events_def)

lemma dequeue_loop_cases:
  assumes "\<forall>x \<in> set q. truthy x"
  shows "(\<exists>rs. map invoke (take (min (nat c - i) ((length q - i + 1) div 2)) q) = map Inr rs \<and>
            dequeue_loop i c q ps =
              (drop (min (nat c - i) ((length q - i + 1) div 2)) q, Inr (ps @ rs)))
         \<or> (\<exists>x ex q'. x \<in> set q \<and> invoke x = Inl ex \<and> dequeue_loop i c q ps = (q', Inl ex))"
  using assms
proof (induction i c q ps rule: dequeue_loop.induct)
  case (1 i c q ps)
  show ?case
  proof (cases "int i < c")
    case False
    then have "nat c - i = 0" by simp
    with False show ?thesis
      by (subst dequeue_loop.simps) simp
  next
    case True
    show ?thesis
    proof (cases "i < length q")
      case False
      then have nt: "\<not> truthy (js_index q i)"
        by (simp add: js_index_def)
      have z: "(length q - i + 1) div 2 = 0" "(length q - Suc i + 1) div 2 = 0"
        using False by simp_all
      have step: "dequeue_loop i c q ps = dequeue_loop (Suc i) c q ps"
        using True nt by (subst dequeue_loop.simps) simp
      show ?thesis
        using "1.IH"(2) [OF True nt "1.prems"] unfolding step z by simp
    next
      case lt: True
      then obtain x q' where q: "q = x # q'"
        by (cases q) auto
      have tr: "truthy (js_index q i)"
        using lt "1.prems" by (simp add: js_index_def)
      have good': "\<forall>x \<in> set q'. truthy x"
        using "1.prems" q by simp
      show ?thesis
      proof (cases "invoke x")
        case (Inl ex)
        then have "dequeue_loop i c q ps = (q', Inl ex)"
          using True tr q by (subst dequeue_loop.simps) simp
        with Inl q show ?thesis
          by auto
      next
        case (Inr r)
        have inv: "invoke (fst (shift q)) = Inr r" "snd (shift q) = q'"
          using q Inr by simp_all
        have step: "dequeue_loop i c q ps = dequeue_loop (Suc i) c q' (ps @ [r])"
          using True tr inv by (subst dequeue_loop.simps) simp
        have k: "min (nat c - i) ((length q - i + 1) div 2) =
            Suc (min (nat c - Suc i) ((length q' - Suc i + 1) div 2))"
        proof -
          have "nat c - i = Suc (nat c - Suc i)"
            using True by linarith
          moreover have "(length q - i + 1) div 2 = Suc ((length q' - Suc i + 1) div 2)"
            using lt q by (cases "i = length q'") (simp_all add: Suc_diff_le)
          ultimately show ?thesis
            by simp
        qed
        from "1.IH"(1) [OF True tr inv(1)] good' inv(2)
        consider
          (batch) rs' where
            "map invoke (take (min (nat c - Suc i) ((length q' - Suc i + 1) div 2)) q') =
               map Inr rs'"
            "dequeue_loop (Suc i) c q' (ps @ [r]) =
               (drop (min (nat c - Suc i) ((length q' - Suc i + 1) div 2)) q',
                Inr ((ps @ [r]) @ rs'))"
        | (thrown) x' ex q'' where "x' \<in> set q'" "invoke x' = Inl ex"
            "dequeue_loop (Suc i) c q' (ps @ [r]) = (q'', Inl ex)"
          by auto
        then show ?thesis
        proof cases
          case batch
          have "map invoke (take (min (nat c - i) ((length q - i + 1) div 2)) q) =
              map Inr (r # rs')"
            unfolding k using batch(1) q Inr by simp
          moreover have "dequeue_loop i c q ps =
              (drop (min (nat c - i) ((length q - i + 1) div 2)) q, Inr (ps @ r # rs'))"
            unfolding k step using batch(2) q by simp
          ultimately show ?thesis
            by blast
        next
          case thrown
          then have "x' \<in> set q" "dequeue_loop i c q ps = (q'', Inl ex)"
            using q step by simp_all
          with thrown(2) show ?thesis
            by blast
        qed
      qed
    qed
  qed
qed

lemma work_item_value:
  "is_work_item x \<Longrightarrow> invoke x = Inr r \<Longrightarrow> outcome_of r = Resolves v \<Longrightarrow>
   value_of x = Some v"
  by (simp add: value_of_def is_work_item_def)

lemma batch_resolved_values:
  assumes "\<forall>x \<in> set xs. is_work_item x" and "map invoke xs = map Inr rs"
    and "map outcome_of rs = map Resolves vs"
  shows "map value_of xs = map Some vs"
  using assms
proof (induction xs arbitrary: rs vs)
  case Nil
  then show ?case by simp
next
  case (Cons x xs)
  then obtain r rs' v vs' where
    "rs = r # rs'" "vs = v # vs'" "invoke x = Inr r" "outcome_of r = Resolves v"
    "map invoke xs = map Inr rs'" "map outcome_of rs' = map Resolves vs'"
    by (cases rs; cases vs) auto
  with Cons.IH [of rs' vs'] Cons.prems(1) show ?case
    by (simp add: work_item_value)
qed

lemma first_rejection_item:
  assumes "map invoke xs = map Inr rs" and "first_rejection rs = Some e"
  shows "\<exists>x \<in> set xs. fails_with x e"
  using assms
proof (induction xs arbitrary: rs)
  case Nil
  then show ?case by simp
next
  case (Cons x xs)
  then obtain r rs' where rs: "rs = r # rs'" "invoke x = Inr r" "map invoke xs = map Inr rs'"
    by (cases rs) auto
  show ?case
  proof (cases "outcome_of r = Rejects e")
    case True
    with rs show ?thesis
      by (simp add: fails_with_def)
  next
    case False
    with Cons.prems(2) rs have "first_rejection rs' = Some e"
      by (auto split: settle.splits)
    with Cons.IH [OF rs(3)] show ?thesis
      by auto
  qed
qed

lemma unresolved_item:
  assumes "map invoke xs = map Inr rs" and "first_rejection rs = None"
    and "resolved_values rs = None"
  shows "\<exists>x \<in> set xs. hangs x"
  using assms
proof (induction xs arbitrary: rs)
  case Nil
  then show ?case by simp
next
  case (Cons x xs)
  then obtain r rs' where rs: "rs = r # rs'" "invoke x = Inr r" "map invoke xs = map Inr rs'"
    by (cases rs) auto
  show ?case
  proof (cases "outcome_of r")
    case (Resolves v)
    with Cons.prems rs have "first_rejection rs' = None" "resolved_values rs' = None"
      by (auto split: option.splits)
    with Cons.IH [OF rs(3)] show ?thesis
      by auto
  next
    case (Rejects e)
    with Cons.prems(2) rs show ?thesis
      by simp
  next
    case Never
    with rs show ?thesis
      by (simp add: hangs_def)
  qed
qed

lemma batch_outcome_items:
  assumes "\<forall>x \<in> set xs. is_work_item x" and "map invoke xs = map Inr rs"
  shows "(\<exists>vs. all_outcome rs = AllResolved vs \<and> map value_of xs = map Some vs)
       \<or> (\<exists>e. all_outcome rs = AllRejected e \<and> (\<exists>x \<in> set xs. fails_with x e))
       \<or> (all_outcome rs = AllPending \<and> (\<exists>x \<in> set xs. hangs x))"
proof (cases "all_outcome rs")
  case (AllResolved vs)
  with batch_resolved_values [OF assms all_outcome_resolved [OF AllResolved]] show ?thesis
    by simp
next
  case (AllRejected e)
  then have "first_rejection rs = Some e"
    by (auto simp: all_outcome_def split: option.splits)
  with first_rejection_item [OF assms(2)] AllRejected show ?thesis
    by simp
next
  case AllPending
  then have "first_rejection rs = None" "resolved_values rs = None"
    by (auto simp: all_outcome_def split: option.splits)
  with unresolved_item [OF assms(2)] AllPending show ?thesis
    by simp
qed

lemma last_cannot_settle:
  assumes "\<forall>b \<in> set bs. b_settled b" and "\<not> can_settle b"
  shows "filter (\<lambda>k. can_settle ((bs @ [b]) ! k)) [0..<length (bs @ [b])] = []"
  using assms by (auto simp: filter_empty_conv nth_append can_settle_def)

lemma graceful_outcome:
  assumes "idle s" and "0 < concurrency s" and "queue s \<noteq> []"
    and "\<forall>x \<in> set (queue s). is_work_item x"
  shows "\<exists>n s'. n \<le> length (queue s) \<and> run n (dequeue s) = Some s' \<and>
           pending_events s' = [] \<and>
           ((\<exists>vs. map value_of (queue s) = map Some vs \<and> queue s' = [] \<and>
                  processed s' = processed s @ vs \<and>
                  calls s' = calls s @ [(onComplete s, Arr (processed s @ vs))] \<and>
                  promises s' = promises (call (onComplete s) (Arr (processed s @ vs)) s))
            \<or> (\<exists>e. (\<exists>x \<in> set (queue s). fails_with x e) \<and>
                  calls s' = calls s @ [(onError s, e)] \<and>
                  promises s' = promises (call (onError s) e s))
            \<or> ((\<exists>x \<in> set (queue s). hangs x) \<and> calls s' = calls s \<and>
                  promises s' = promises s))"
  using assms
proof (induction "length (queue s)" arbitrary: s rule: less_induct)
  case less
  let ?q = "queue s"
  define k where "k = min (nat (concurrency s)) ((length ?q + 1) div 2)"
  have nw: "\<not> working s" and idle_s: "queueWaiting s = []" "ticks s = 0" "timers s = []"
    "\<forall>b \<in> set (batches s). b_settled b"
    using less.prems(1) by (simp_all add: idle_def)
  have quiet: "pending_events s = []"
    using less.prems(1) by (rule idle_quiet)
  have truthy: "\<forall>x \<in> set ?q. truthy x"
    using less.prems(4) by (simp add: work_item_truthy)
  have k: "0 < k" "k \<le> length ?q"
    using less.prems(2,3) by (auto simp: k_def min_def)
  from dequeue_loop_cases [OF truthy, of "concurrency s" 0 "[]"]
  consider
    (batch) rs where "map invoke (take k ?q) = map Inr rs"
      "dequeue_loop 0 (concurrency s) ?q [] = (drop k ?q, Inr rs)"
  | (thrown) x ex q' where "x \<in> set ?q" "invoke x = Inl ex"
      "dequeue_loop 0 (concurrency s) ?q [] = (q', Inl ex)"
    by (auto simp: k_def)
  then show ?case
  proof cases
    case thrown
    define s' where "s' = call (onError s) ex (s\<lparr>queue := q', working := False\<rparr>)"
    have deq: "dequeue s = s'"
      using nw thrown(3) by (simp add: dequeue_def s'_def)
    have "pending_events s' = pending_events s"
      by (rule pending_events_cong) (simp_all add: s'_def call_fields)
    then have rest: "pending_events s' = []"
      using quiet by simp
    then have "run 0 (dequeue s) = Some s'"
      using deq by simp
    moreover have "fails_with x ex"
      using thrown(2) by (simp add: fails_with_def)
    moreover have "calls s' = calls s @ [(onError s, ex)]"
      by (simp add: s'_def calls_call)
    moreover have "promises s' = promises (call (onError s) ex s)"
      unfolding s'_def by (rule promises_call_cong) simp
    ultimately show ?thesis
      using rest thrown(1) by blast
  next
    case batch
    define b where "b = \<lparr>b_promises = rs, b_delay = delay s, b_onError = onError s,
      b_settled = False\<rparr>"
    define s1 where "s1 = s\<lparr>queue := drop k ?q, working := True, batches := batches s @ [b]\<rparr>"
    have "length rs = k"
      using batch(1) k(2) by (metis length_map length_take min.absorb2)
    then have "rs \<noteq> []"
      using k(1) by auto
    then have deq: "dequeue s = s1"
      using nw batch(2) by (simp add: dequeue_def s1_def b_def)
    have items: "\<forall>x \<in> set (take k ?q). is_work_item x"
      using less.prems(4) by (auto dest: in_set_takeD)
    from batch_outcome_items [OF items batch(1)]
    consider
      (resolved) vs1 where "all_outcome rs = AllResolved vs1" "map value_of (take k ?q) = map Some vs1"
    | (rejected) e x where "all_outcome rs = AllRejected e" "x \<in> set (take k ?q)" "fails_with x e"
    | (pending) x where "all_outcome rs = AllPending" "x \<in> set (take k ?q)" "hangs x"
      by blast
    then show ?thesis
    proof cases
      case pending
      have "\<not> can_settle b"
        using pending(1) by (simp add: can_settle_def b_def)
      then have "pending_events s1 = []"
        using last_cannot_settle [OF idle_s(4)] idle_s by (simp add: pending_events_def s1_def)
      moreover from this have "run 0 (dequeue s) = Some s1"
        using deq by simp
      moreover have "x \<in> set ?q"
        using pending(2) by (rule in_set_takeD)
      moreover have "calls s1 = calls s" "promises s1 = promises s"
        by (simp_all add: s1_def)
      ultimately show ?thesis
        using pending(3) by blast
    next
      case rejected
      have cs: "can_settle b"
        using rejected(1) by (simp add: can_settle_def b_def)
      have pend: "pending_events s1 = [BatchSettles (length (batches s))]"
        using only_last_can_settle [OF idle_s(4) cs] idle_s
        by (simp add: pending_events_def s1_def)
      define s' where "s' = call (onError s) e (s1\<lparr>batches := batches s @ [b\<lparr>b_settled := True\<rparr>]\<rparr>)"
      have fired: "fire (BatchSettles (length (batches s))) s1 = s'"
        using rejected(1) by (simp add: settle_batch_def Let_def s1_def b_def s'_def)
      have rest: "pending_events s' = []"
        using idle_s none_can_settle [of "batches s @ [b\<lparr>b_settled := True\<rparr>]"]
        by (simp add: pending_events_def s'_def call_fields s1_def)
      have "run (Suc 0) (dequeue s) = Some s'"
        using deq pend fired rest by simp
      moreover have "Suc 0 \<le> length ?q"
        using less.prems(3) by (simp add: Suc_le_eq)
      moreover have "x \<in> set ?q"
        using rejected(2) by (rule in_set_takeD)
      moreover have "calls s' = calls s @ [(onError s, e)]"
        by (simp add: s'_def calls_call s1_def)
      moreover have "promises s' = promises (call (onError s) e s)"
        unfolding s'_def by (rule promises_call_cong) (simp add: s1_def)
      ultimately show ?thesis
        using rest rejected(3) by blast
    next
      case resolved
      have cs: "can_settle b"
        using resolved(1) by (simp add: can_settle_def b_def)
      have pend: "pending_events s1 = [BatchSettles (length (batches s))]"
        using only_last_can_settle [OF idle_s(4) cs] idle_s
        by (simp add: pending_events_def s1_def)
      define t where "t = s1\<lparr>batches := batches s @ [b\<lparr>b_settled := True\<rparr>],
        processed := processed s @ vs1, working := False\<rparr>"
      have idle_t: "idle t"
        using idle_s by (simp add: idle_def t_def s1_def)
      show ?thesis
      proof (cases "drop k ?q = []")
        case True
        then have whole: "take k ?q = ?q"
          by simp
        define s' where "s' = call (onComplete s) (Arr (processed s @ vs1)) t"
        have fired: "fire (BatchSettles (length (batches s))) s1 = s'"
          using resolved(1) True idle_s
          by (simp add: settle_batch_def on_fulfilled_def Let_def s1_def b_def t_def s'_def
              call_fields call_working_update)
        have idle': "idle s'"
          using idle_t by (simp add: idle_def s'_def call_fields)
        have "run (Suc 0) (dequeue s) = Some s'"
          using deq pend fired idle_quiet [OF idle'] by simp
        moreover have "queue s' = []" "processed s' = processed s @ vs1"
          "calls s' = calls s @ [(onComplete s, Arr (processed s @ vs1))]"
          using True by (simp_all add: s'_def call_fields calls_call t_def s1_def)
        moreover have "promises s' = promises (call (onComplete s) (Arr (processed s @ vs1)) s)"
          unfolding s'_def by (rule promises_call_cong) (simp add: t_def s1_def)
        moreover have "Suc 0 \<le> length ?q"
          using less.prems(3) by (simp add: Suc_le_eq)
        moreover have "map value_of ?q = map Some vs1"
          using resolved(2) whole by simp
        ultimately show ?thesis
          using idle_quiet [OF idle'] by blast
      next
        case False
        have fired: "fire (BatchSettles (length (batches s))) s1 = dequeue t"
          using resolved(1) False idle_s
          by (simp add: settle_batch_def on_fulfilled_def Let_def s1_def b_def t_def)
        have qt: "queue t = drop k ?q" "concurrency t = concurrency s"
          "processed t = processed s @ vs1" "calls t = calls s" "onComplete t = onComplete s"
          "onError t = onError s" "promises t = promises s"
          by (simp_all add: t_def s1_def)
        have shorter: "length (queue t) < length ?q"
          using k less.prems(3) qt by simp
        have items_t: "\<forall>x \<in> set (queue t). is_work_item x"
          using less.prems(4) qt by (auto dest: in_set_dropD)
        have sub: "x \<in> set ?q" if "x \<in> set (queue t)" for x
          using that qt by (auto dest: in_set_dropD)
        have pos_t: "0 < concurrency t" and ne_t: "queue t \<noteq> []"
          using False less.prems(2) qt by simp_all
        from less.hyps [OF shorter idle_t pos_t ne_t items_t]
        obtain n s' where
          run: "n \<le> length (queue t)" "run n (dequeue t) = Some s'" "pending_events s' = []" and
          cases: "(\<exists>vs. map value_of (queue t) = map Some vs \<and> queue s' = [] \<and>
                  processed s' = processed t @ vs \<and>
                  calls s' = calls t @ [(onComplete t, Arr (processed t @ vs))] \<and>
                  promises s' = promises (call (onComplete t) (Arr (processed t @ vs)) t))
            \<or> (\<exists>e. (\<exists>x \<in> set (queue t). fails_with x e) \<and>
                  calls s' = calls t @ [(onError t, e)] \<and>
                  promises s' = promises (call (onError t) e t))
            \<or> ((\<exists>x \<in> set (queue t). hangs x) \<and> calls s' = calls t \<and>
                  promises s' = promises t)"
          by blast
        have run': "run (Suc n) (dequeue s) = Some s'" "Suc n \<le> length ?q"
          using deq pend fired run(1,2) shorter by simp_all
        from cases consider
          (finished) vs2 where "map value_of (queue t) = map Some vs2" "queue s' = []"
            "processed s' = processed t @ vs2"
            "calls s' = calls t @ [(onComplete t, Arr (processed t @ vs2))]"
            "promises s' = promises (call (onComplete t) (Arr (processed t @ vs2)) t)"
        | (failed) e x where "x \<in> set (queue t)" "fails_with x e"
            "calls s' = calls t @ [(onError t, e)]" "promises s' = promises (call (onError t) e t)"
        | (hung) x where "x \<in> set (queue t)" "hangs x" "calls s' = calls t"
            "promises s' = promises t"
          by blast
        then show ?thesis
        proof cases
          case finished
          have "map value_of ?q = map value_of (take k ?q) @ map value_of (drop k ?q)"
            by (metis append_take_drop_id map_append)
          then have "map value_of ?q = map Some (vs1 @ vs2)"
            using resolved(2) finished(1) qt by simp
          moreover have "processed s' = processed s @ vs1 @ vs2"
            "calls s' = calls s @ [(onComplete s, Arr (processed s @ vs1 @ vs2))]"
            using finished(3,4) qt by simp_all
          moreover have "promises s' =
              promises (call (onComplete s) (Arr (processed s @ vs1 @ vs2)) s)"
            using finished(5) qt promises_call_cong [of t s] by simp
          ultimately show ?thesis
            using run' run(3) finished(2) by blast
        next
          case failed
          have "calls s' = calls s @ [(onError s, e)]"
            using failed(3) qt by simp
          moreover have "promises s' = promises (call (onError s) e s)"
            using failed(4) qt promises_call_cong [of t s] by simp
          ultimately show ?thesis
            using run' run(3) sub [OF failed(1)] failed(2) by blast
        next
          case hung
          have "calls s' = calls s" "promises s' = promises s"
            using hung(3,4) qt by simp_all
          then show ?thesis
            using run' run(3) sub [OF hung(1)] hung(2) by blast
        qed
      qed
    qed
  qed
qed

lemma start_run_outcome:
  assumes "idle s" and "0 < concurrency s" and "queue s \<noteq> []"
    and "\<forall>x \<in> set (queue s). is_work_item x" and "length (queue s) < n"
  shows "\<exists>s'. run n (snd (start s)) = Some s' \<and> pending_events s' = [] \<and>
           ((\<exists>vs. map value_of (queue s) = map Some vs \<and> queue s' = [] \<and>
                  processed s' = processed s @ vs \<and>
                  calls s' = calls s @ [(Resolve (fst (start s)), Arr (processed s @ vs))] \<and>
                  promises s' ! fst (start s) = Fulfilled (Arr (processed s @ vs)))
            \<or> (\<exists>e. (\<exists>x \<in> set (queue s). fails_with x e) \<and>
                  calls s' = calls s @ [(Reject (fst (start s)), e)] \<and>
                  promises s' ! fst (start s) = Rejected e)
            \<or> ((\<exists>x \<in> set (queue s). hangs x) \<and> calls s' = calls s \<and>
                  promises s' ! fst (start s) = Pending))"
proof -
  define p where "p = length (promises s)"
  define s0 where "s0 = s\<lparr>ticks := Suc 0, promises := promises s @ [Pending],
    onComplete := Resolve p, onError := Reject p\<rparr>"
  define t where "t = s0\<lparr>ticks := 0\<rparr>"
  have idle_s: "\<not> working s" "queueWaiting s = []" "ticks s = 0" "timers s = []"
    "\<forall>b \<in> set (batches s). b_settled b"
    using assms(1) by (simp_all add: idle_def)
  have st: "start s = (p, s0)"
    using idle_s by (simp add: start_def Let_def p_def s0_def)
  have pend: "pending_events s0 = [Tick]"
    using idle_s by (simp add: pending_events_def s0_def none_can_settle)
  have fired: "fire Tick s0 = dequeue t"
    by (simp add: t_def s0_def)
  have idle_t: "idle t"
    using idle_s by (simp add: idle_def t_def s0_def)
  have t: "queue t = queue s" "concurrency t = concurrency s" "processed t = processed s"
    "calls t = calls s" "onComplete t = Resolve p" "onError t = Reject p"
    "promises t = promises s @ [Pending]"
    by (simp_all add: t_def s0_def)
  have pos_t: "0 < concurrency t" and ne_t: "queue t \<noteq> []"
    and items_t: "\<forall>x \<in> set (queue t). is_work_item x"
    using assms(2,3,4) t by simp_all
  from graceful_outcome [OF idle_t pos_t ne_t items_t]
  obtain m s' where
    run: "m \<le> length (queue t)" "run m (dequeue t) = Some s'" "pending_events s' = []" and
    cases: "(\<exists>vs. map value_of (queue t) = map Some vs \<and> queue s' = [] \<and>
              processed s' = processed t @ vs \<and>
              calls s' = calls t @ [(onComplete t, Arr (processed t @ vs))] \<and>
              promises s' = promises (call (onComplete t) (Arr (processed t @ vs)) t))
        \<or> (\<exists>e. (\<exists>x \<in> set (queue t). fails_with x e) \<and>
              calls s' = calls t @ [(onError t, e)] \<and>
              promises s' = promises (call (onError t) e t))
        \<or> ((\<exists>x \<in> set (queue t). hangs x) \<and> calls s' = calls t \<and>
              promises s' = promises t)"
    by blast
  have first: "run (Suc m) s0 = Some s'"
    using pend fired run(2) by simp
  have fuel: "Suc m + (n - Suc m) = n"
    using run(1) assms(5) t(1) by simp
  have "run n s0 = Some s'"
    using run_more [OF first, of "n - Suc m"] unfolding fuel .
  then have ran: "run n (snd (start s)) = Some s'"
    using st by simp
  have ful: "promises (call (Resolve p) (Arr rs) t) ! p = Fulfilled (Arr rs)" for rs
    using t(7) by (simp add: settle_promise_def p_def nth_append resolution_array)
  have rej: "promises (call (Reject p) e t) ! p = Rejected e" for e
    using t(7) by (simp add: settle_promise_def p_def nth_append)
  have pen: "promises t ! p = Pending"
    using t(7) by (simp add: p_def nth_append)
  from cases consider
    (finished) vs where "map value_of (queue t) = map Some vs" "queue s' = []"
      "processed s' = processed t @ vs"
      "calls s' = calls t @ [(onComplete t, Arr (processed t @ vs))]"
      "promises s' = promises (call (onComplete t) (Arr (processed t @ vs)) t)"
  | (failed) e x where "x \<in> set (queue t)" "fails_with x e"
      "calls s' = calls t @ [(onError t, e)]" "promises s' = promises (call (onError t) e t)"
  | (hung) x where "x \<in> set (queue t)" "hangs x" "calls s' = calls t"
      "promises s' = promises t"
    by blast
  then show ?thesis
  proof cases
    case finished
    then have "map value_of (queue s) = map Some vs" "queue s' = []"
      "processed s' = processed s @ vs"
      "calls s' = calls s @ [(Resolve (fst (start s)), Arr (processed s @ vs))]"
      "promises s' ! fst (start s) = Fulfilled (Arr (processed s @ vs))"
      using t st ful by simp_all
    with ran run(3) show ?thesis
      by blast
  next
    case failed
    then have "x \<in> set (queue s)" "calls s' = calls s @ [(Reject (fst (start s)), e)]"
      "promises s' ! fst (start s) = Rejected e"
      using t st rej by simp_all
    with ran run(3) failed(2) show ?thesis
      by blast
  next
    case hung
    then have "x \<in> set (queue s)" "calls s' = calls s" "promises s' ! fst (start s) = Pending"
      using t st pen by simp_all
    with ran run(3) hung(2) show ?thesis
      by blast
  qed
qed

section \<open>Construction\<close>

text \<open>
  Claim C9. The constructor replaces every falsy option by its default: an interval of 0
  gives 5000, a concurrency of 0 gives 4, a delay of 0 gives 0, an absent callback gives
  the empty function. An option set to 0 builds the same object as the option left out,
  and no options builds an object whose interval or concurrency is 0.
\<close>

theorem falsy_options_defaulted:
  "interval (BlueBirdQueue (Some (opts\<lparr>opt_interval := Some 0\<rparr>))) = 5000
   \<and> concurrency (BlueBirdQueue (Some (opts\<lparr>opt_concurrency := Some 0\<rparr>))) = 4
   \<and> delay (BlueBirdQueue (Some (opts\<lparr>opt_delay := Some 0\<rparr>))) = 0
   \<and> onComplete (BlueBirdQueue (Some (opts\<lparr>opt_onComplete := None\<rparr>))) = Noop
   \<and> onError (BlueBirdQueue (Some (opts\<lparr>opt_onError := None\<rparr>))) = Noop
   \<and> BlueBirdQueue (Some (opts\<lparr>opt_interval := Some 0\<rparr>)) =
       BlueBirdQueue (Some (opts\<lparr>opt_interval := None\<rparr>))
   \<and> BlueBirdQueue (Some (opts\<lparr>opt_concurrency := Some 0\<rparr>)) =
       BlueBirdQueue (Some (opts\<lparr>opt_concurrency := None\<rparr>))
   \<and> BlueBirdQueue (Some (opts\<lparr>opt_delay := Some 0\<rparr>)) =
       BlueBirdQueue (Some (opts\<lparr>opt_delay := None\<rparr>))
   \<and> BlueBirdQueue None = BlueBirdQueue (Some no_options)
   \<and> interval (BlueBirdQueue options) \<noteq> 0
   \<and> concurrency (BlueBirdQueue options) \<noteq> 0"
  by (simp add: BlueBirdQueue_def Let_def or_int_nonzero)

section \<open>Dispatch while busy\<close>

text \<open>
  Claim C6. When \<^verbatim>\<open>_dequeue\<close> is called while the busy flag is set, the pending queue, the
  results, the callbacks' invocations, the promises, the batches and the flag itself stay
  as they were; the only change is one new timeout for the configured interval, whose
  handle is appended to the waiting list, and which calls \<^verbatim>\<open>_dequeue\<close> again when it
  fires.
\<close>

theorem dequeue_busy_frame:
  assumes "working s"
  shows "dequeue s =
           s\<lparr>queueWaiting := queueWaiting s @ [nextTimer s],
             timers := timers s @ [(nextTimer s, interval s)],
             nextTimer := Suc (nextTimer s)\<rparr>
    \<and> queue (dequeue s) = queue s
    \<and> processed (dequeue s) = processed s
    \<and> calls (dequeue s) = calls s
    \<and> promises (dequeue s) = promises s
    \<and> batches (dequeue s) = batches s
    \<and> ticks (dequeue s) = ticks s
    \<and> working (dequeue s)
    \<and> queueWaiting (dequeue s) = queueWaiting s @ [nextTimer s]
    \<and> timers (dequeue s) = timers s @ [(nextTimer s, interval s)]
    \<and> fire (TimerFires (nextTimer s)) (dequeue s) =
        dequeue ((dequeue s)\<lparr>timers := clearTimeout (nextTimer s) (timers (dequeue s))\<rparr>)"
  using assms by (simp add: dequeue_def)

theorem dequeue_busy_frame_witness:
  "working ((BlueBirdQueue None)\<lparr>working := True\<rparr>) \<and>
   dequeue ((BlueBirdQueue None)\<lparr>working := True\<rparr>) =
     (BlueBirdQueue None)\<lparr>working := True, queueWaiting := [0], timers := [(0, 5000)],
       nextTimer := 1\<rparr>"
  using dequeue_busy_frame [of "(BlueBirdQueue None)\<lparr>working := True\<rparr>"]
  by (simp add: BlueBirdQueue_def no_options_def)

section \<open>Dispatch with nothing to do\<close>

text \<open>
  Claim C10. When \<^verbatim>\<open>_dequeue\<close> runs on an idle object whose queue is empty, it leaves the
  busy flag cleared and calls no callback. So after \<^verbatim>\<open>start\<close> on a fresh object the
  scheduling loop runs the one scheduled dispatch and stops with nothing pending: no
  callback was called and the returned promise is still pending, for ever.
\<close>

theorem dequeue_nothing_to_do:
  "(\<not> working s \<and> queue s = [] \<longrightarrow>
      dequeue s = s\<lparr>working := False\<rparr> \<and> \<not> working (dequeue s) \<and> calls (dequeue s) = calls s
      \<and> promises (dequeue s) = promises s \<and> batches (dequeue s) = batches s
      \<and> timers (dequeue s) = timers s)
   \<and> run (Suc n) (snd (start (BlueBirdQueue options))) =
       Some ((snd (start (BlueBirdQueue options)))\<lparr>ticks := 0\<rparr>)
   \<and> pending_events ((snd (start (BlueBirdQueue options)))\<lparr>ticks := 0\<rparr>) = []
   \<and> calls ((snd (start (BlueBirdQueue options)))\<lparr>ticks := 0\<rparr>) = []
   \<and> promises ((snd (start (BlueBirdQueue options)))\<lparr>ticks := 0\<rparr>)
        ! fst (start (BlueBirdQueue options)) = Pending"
proof -
  let ?s0 = "snd (start (BlueBirdQueue options))"
  have idle: "dequeue t = t\<lparr>working := False\<rparr>" if "\<not> working t" "queue t = []" for t
    using that by (simp add: dequeue_def dequeue_loop_empty)
  have s0: "pending_events ?s0 = [Tick]" "\<not> working ?s0" "queue ?s0 = []"
    by (simp_all add: start_def BlueBirdQueue_def Let_def pending_events_def)
  have fired: "fire Tick ?s0 = ?s0\<lparr>ticks := 0\<rparr>"
    using idle [of "?s0\<lparr>ticks := ticks ?s0 - 1\<rparr>"] s0
    by (simp add: start_def BlueBirdQueue_def Let_def)
  have quiet: "pending_events (?s0\<lparr>ticks := 0\<rparr>) = []"
    by (simp add: start_def BlueBirdQueue_def Let_def pending_events_def)
  have "run (Suc n) ?s0 = run n (?s0\<lparr>ticks := 0\<rparr>)"
    using s0(1) fired by simp
  also have "\<dots> = Some (?s0\<lparr>ticks := 0\<rparr>)"
    using quiet by (cases n) simp_all
  finally have "run (Suc n) ?s0 = Some (?s0\<lparr>ticks := 0\<rparr>)" .
  moreover have "calls (?s0\<lparr>ticks := 0\<rparr>) = []"
    "promises (?s0\<lparr>ticks := 0\<rparr>) ! fst (start (BlueBirdQueue options)) = Pending"
    by (simp_all add: start_def BlueBirdQueue_def Let_def)
  ultimately show ?thesis
    using idle [of s] quiet by simp
qed

theorem dequeue_nothing_to_do_witness:
  "\<not> working (BlueBirdQueue None) \<and> queue (BlueBirdQueue None) = [] \<and>
   dequeue (BlueBirdQueue None) = BlueBirdQueue None \<and>
   run 1 (snd (start (BlueBirdQueue None))) =
     Some ((BlueBirdQueue None)\<lparr>onComplete := Resolve 0, onError := Reject 0,
            promises := [Pending]\<rparr>)"
  using dequeue_nothing_to_do [of "BlueBirdQueue None" 0 None]
  by (simp add: BlueBirdQueue_def no_options_def start_def Let_def)

section \<open>Enqueueing\<close>

text \<open>
  Claim C3, as the code has it. An input that is not an array, not a function and has no
  \<^verbatim>\<open>then\<close> makes \<^verbatim>\<open>add\<close> and \<^verbatim>\<open>addNow\<close> throw at once, the object unchanged: the error
  \<^verbatim>\<open>No promises were provided\<close> for an object, the \<^verbatim>\<open>TypeError\<close> of the \<^verbatim>\<open>in\<close> operator for a
  primitive. An array is appended to the queue as it is, whatever its elements are.
\<close>

theorem add_rejects_invalid_item:
  "(\<not> is_array func \<and> \<not> is_function func \<and> has_then func \<noteq> Inr True \<longrightarrow>
      add func s =
        Inl (if has_then func = Inr False then ErrorObj ''No promises were provided''
             else TypeErrorObj, s)
      \<and> addNow func s = add func s)
   \<and> add (Arr xs) s = Inr (s\<lparr>queue := queue s @ xs\<rparr>)"
  by (cases func) (simp_all add: add_def addNow_def)

theorem add_rejects_invalid_item_witness:
  "\<not> is_array Obj \<and> \<not> is_function Obj \<and> has_then Obj \<noteq> Inr True
   \<and> add Obj (BlueBirdQueue None) = Inl (ErrorObj ''No promises were provided'', BlueBirdQueue None)
   \<and> addNow (Num 5) (BlueBirdQueue None) = Inl (TypeErrorObj, BlueBirdQueue None)"
  using add_rejects_invalid_item [of Obj "BlueBirdQueue None" "[]"]
    add_rejects_invalid_item [of "Num 5" "BlueBirdQueue None" "[]"]
  by simp

text \<open>
  The claim as the specification states it fails on an array holding a plain object and a
  number, neither of them a work item: \<^verbatim>\<open>add\<close> returns normally and both are in the queue.
\<close>

theorem add_unchecked_sequence_counterexample:
  "add (Arr [Obj, Num 5]) (BlueBirdQueue None) =
     Inr ((BlueBirdQueue None)\<lparr>queue := [Obj, Num 5]\<rparr>)
   \<and> value_of Obj = None \<and> value_of (Num 5) = None"
  by (simp add: add_def BlueBirdQueue_def value_of_def)

section \<open>Graceful start\<close>

text \<open>
  Claim C8, as the code has it. \<^verbatim>\<open>start\<close> returns without dispatching: queue, results, busy
  flag, batches, timers and callback invocations are as before, and one dispatch is
  scheduled, which the next turn of the scheduling loop runs as \<^verbatim>\<open>_dequeue\<close>. It returns a
  new pending promise and installs that promise's \<^verbatim>\<open>resolve\<close> and \<^verbatim>\<open>reject\<close> as completion and
  error callback, whatever was configured. When the object is at rest at the call, has a
  positive concurrency and holds at least one item, all of them work items, the
  scheduling loop comes to rest within one turn per item and one more, and the promise
  settles exactly when the pipeline completes or fails: it is fulfilled with all results
  in order when every item succeeds, the queue then being empty; it is rejected with the
  failure of an item when a factory throws or a batch rejects; it is still pending, no
  callback having been invoked, only when an item never settles.
\<close>

theorem start_defers_dispatch:
  "start s =
     (length (promises s),
      s\<lparr>ticks := Suc (ticks s), promises := promises s @ [Pending],
        onComplete := Resolve (length (promises s)),
        onError := Reject (length (promises s))\<rparr>)
   \<and> queue (snd (start s)) = queue s
   \<and> processed (snd (start s)) = processed s
   \<and> working (snd (start s)) = working s
   \<and> batches (snd (start s)) = batches s
   \<and> queueWaiting (snd (start s)) = queueWaiting s
   \<and> timers (snd (start s)) = timers s
   \<and> calls (snd (start s)) = calls s
   \<and> ticks (snd (start s)) = Suc (ticks s)
   \<and> hd (pending_events (snd (start s))) = Tick
   \<and> fire Tick (snd (start s)) = dequeue ((snd (start s))\<lparr>ticks := ticks s\<rparr>)
   \<and> onComplete (snd (start s)) = Resolve (fst (start s))
   \<and> onError (snd (start s)) = Reject (fst (start s))
   \<and> promises (snd (start s)) ! fst (start s) = Pending
   \<and> promises (call (onComplete (snd (start s))) v (snd (start s))) ! fst (start s) =
       resolution v
   \<and> promises (call (onError (snd (start s))) e (snd (start s))) ! fst (start s) = Rejected e
   \<and> (cb \<noteq> Resolve (fst (start s)) \<and> cb \<noteq> Reject (fst (start s)) \<longrightarrow>
        promises (call cb v (snd (start s))) ! fst (start s) = Pending)
   \<and> (idle s \<and> 0 < concurrency s \<and> queue s \<noteq> [] \<and> (\<forall>x \<in> set (queue s). is_work_item x) \<and>
      length (queue s) < n \<longrightarrow>
        (\<exists>s'. run n (snd (start s)) = Some s' \<and> pending_events s' = [] \<and>
           ((\<exists>vs. map value_of (queue s) = map Some vs \<and> queue s' = [] \<and>
                  processed s' = processed s @ vs \<and>
                  calls s' = calls s @ [(Resolve (fst (start s)), Arr (processed s @ vs))] \<and>
                  promises s' ! fst (start s) = Fulfilled (Arr (processed s @ vs)))
            \<or> (\<exists>e. (\<exists>x \<in> set (queue s). fails_with x e) \<and>
                  calls s' = calls s @ [(Reject (fst (start s)), e)] \<and>
                  promises s' ! fst (start s) = Rejected e)
            \<or> ((\<exists>x \<in> set (queue s). hangs x) \<and> calls s' = calls s \<and>
                  promises s' ! fst (start s) = Pending))))"
proof -
  have now: "start s =
     (length (promises s),
      s\<lparr>ticks := Suc (ticks s), promises := promises s @ [Pending],
        onComplete := Resolve (length (promises s)),
        onError := Reject (length (promises s))\<rparr>)"
    by (simp add: start_def Let_def)
  have settles: "promises (call (onComplete (snd (start s))) v (snd (start s))) ! fst (start s) =
       resolution v"
    "promises (call (onError (snd (start s))) e (snd (start s))) ! fst (start s) = Rejected e"
    "cb \<noteq> Resolve (fst (start s)) \<and> cb \<noteq> Reject (fst (start s)) \<longrightarrow>
        promises (call cb v (snd (start s))) ! fst (start s) = Pending"
    by (cases cb; simp add: now settle_promise_def nth_append)+
  have "hd (pending_events (snd (start s))) = Tick"
    by (simp add: now pending_events_def)
  with now settles start_run_outcome [of s n] show ?thesis
    by simp
qed

theorem start_defers_dispatch_witness:
  "start one_item_configured =
     (0, one_item_configured\<lparr>ticks := 1, promises := [Pending], onComplete := Resolve 0,
           onError := Reject 0\<rparr>)
   \<and> User 1 \<noteq> Resolve 0 \<and> User 1 \<noteq> Reject 0
   \<and> promises (call (User 1) Null (snd (start one_item_configured))) ! 0 = Pending
   \<and> idle one_item_configured \<and> 0 < concurrency one_item_configured
   \<and> queue one_item_configured = [deadPromise (Str ''hello'')]
   \<and> is_work_item (deadPromise (Str ''hello''))
   \<and> (\<exists>s'. run 2 (snd (start one_item_configured)) = Some s' \<and> pending_events s' = [] \<and>
         queue s' = [] \<and> processed s' = [Str ''hello''] \<and>
         calls s' = [(Resolve 0, Arr [Str ''hello''])] \<and>
         promises s' ! 0 = Fulfilled (Arr [Str ''hello'']))"
proof -
  let ?s = one_item_configured
  have s: "idle ?s" "0 < concurrency ?s" "queue ?s = [deadPromise (Str ''hello'')]"
    "processed ?s = []" "calls ?s = []" "promises ?s = []"
    by (simp_all add: one_item_configured_def idle_def BlueBirdQueue_def no_options_def)
  have item: "is_work_item (deadPromise (Str ''hello''))"
    "value_of (deadPromise (Str ''hello'')) = Some (Str ''hello'')"
    "\<not> fails_with (deadPromise (Str ''hello'')) e" "\<not> hangs (deadPromise (Str ''hello''))" for e
    by (simp_all add: is_work_item_def value_of_def fails_with_def hangs_def deadPromise_def)
  have p: "fst (start ?s) = 0"
    using s(6) by (simp add: start_def Let_def)
  note inst = start_defers_dispatch [of ?s Null Null "User 1" 2]
  have first: "start ?s =
      (0, ?s\<lparr>ticks := 1, promises := [Pending], onComplete := Resolve 0, onError := Reject 0\<rparr>)"
    using inst [THEN conjunct1] s(6)
    by (simp add: one_item_configured_def BlueBirdQueue_def no_options_def)
  have "User 1 \<noteq> Resolve (fst (start ?s)) \<and> User 1 \<noteq> Reject (fst (start ?s)) \<longrightarrow>
      promises (call (User 1) Null (snd (start ?s))) ! fst (start ?s) = Pending"
    using inst by (elim conjE) assumption
  then have other: "promises (call (User 1) Null (snd (start ?s))) ! 0 = Pending"
    using p by simp
  have "idle ?s \<and> 0 < concurrency ?s \<and> queue ?s \<noteq> [] \<and> (\<forall>x \<in> set (queue ?s). is_work_item x) \<and>
      length (queue ?s) < 2 \<longrightarrow>
        (\<exists>s'. run 2 (snd (start ?s)) = Some s' \<and> pending_events s' = [] \<and>
           ((\<exists>vs. map value_of (queue ?s) = map Some vs \<and> queue s' = [] \<and>
                  processed s' = processed ?s @ vs \<and>
                  calls s' = calls ?s @ [(Resolve (fst (start ?s)), Arr (processed ?s @ vs))] \<and>
                  promises s' ! fst (start ?s) = Fulfilled (Arr (processed ?s @ vs)))
            \<or> (\<exists>e. (\<exists>x \<in> set (queue ?s). fails_with x e) \<and>
                  calls s' = calls ?s @ [(Reject (fst (start ?s)), e)] \<and>
                  promises s' ! fst (start ?s) = Rejected e)
            \<or> ((\<exists>x \<in> set (queue ?s). hangs x) \<and> calls s' = calls ?s \<and>
                  promises s' ! fst (start ?s) = Pending)))"
    using inst by (elim conjE) assumption
  then obtain s' where "run 2 (snd (start ?s)) = Some s'" "pending_events s' = []"
    "queue s' = []" "processed s' = [Str ''hello'']"
    "calls s' = [(Resolve 0, Arr [Str ''hello''])]"
    "promises s' ! 0 = Fulfilled (Arr [Str ''hello''])"
    using s item p by auto
  with first other s item(1) show ?thesis
    by blast
qed

text \<open>
  The claim as the specification states it fails when \<^verbatim>\<open>start\<close> follows an \<^verbatim>\<open>addNow\<close> that has
  dispatched already: the scheduling loop comes to rest with the one item processed and
  the queue empty, no callback invoked and the promise pending. The same happens to both
  promises when \<^verbatim>\<open>start\<close> is called twice on an object holding one item.
\<close>

theorem start_after_dispatch_counterexample:
  "addNow (deadPromise (Str ''hello'')) (BlueBirdQueue None) =
     Inr (dequeue ((BlueBirdQueue None)\<lparr>queue := [deadPromise (Str ''hello'')]\<rparr>))
   \<and> fst (start (dequeue ((BlueBirdQueue None)\<lparr>queue := [deadPromise (Str ''hello'')]\<rparr>))) = 0
   \<and> map_option queue (run 3 started_after_addNow) = Some []
   \<and> map_option processed (run 3 started_after_addNow) = Some [Str ''hello'']
   \<and> map_option promises (run 3 started_after_addNow) = Some [Pending]
   \<and> map_option calls (run 3 started_after_addNow) = Some []
   \<and> map_option pending_events (run 3 started_after_addNow) = Some []
   \<and> map_option processed
       (run 4 (snd (start (snd (start
          ((BlueBirdQueue None)\<lparr>queue := [deadPromise (Str ''hello'')]\<rparr>)))))) =
     Some [Str ''hello'']
   \<and> map_option promises
       (run 4 (snd (start (snd (start
          ((BlueBirdQueue None)\<lparr>queue := [deadPromise (Str ''hello'')]\<rparr>)))))) =
     Some [Pending, Pending]
   \<and> map_option pending_events
       (run 4 (snd (start (snd (start
          ((BlueBirdQueue None)\<lparr>queue := [deadPromise (Str ''hello'')]\<rparr>)))))) =
     Some []"
  by code_simp

section \<open>Settlement of a batch\<close>

text \<open>
  What the function given to \<^verbatim>\<open>spread\<close> does, in the code's own terms, where the waiting
  list \<^verbatim>\<open>_queueWaiting\<close> stands for the retries outstanding. With the values \<open>vs\<close> of the
  batch's items in item order, it appends \<open>vs\<close> to the results and clears the busy flag.
  If the queue and the waiting list are both empty it invokes the completion callback,
  once, with all results; otherwise it invokes no callback itself, and it calls
  \<^verbatim>\<open>_dequeue\<close> again at once if the queue is not empty and the waiting list is (a call that
  can only reach the error callback, when a factory throws), and does nothing more if the
  waiting list is not empty.
\<close>

lemma settle_success:
  assumes "k < length (batches s)"
    and "all_outcome (b_promises (batches s ! k)) = AllResolved vs"
  shows "map outcome_of (b_promises (batches s ! k)) = map Resolves vs
   \<and> settle_batch k s =
       (let t = s\<lparr>batches := (batches s)[k := (batches s ! k)\<lparr>b_settled := True\<rparr>],
                  processed := processed s @ vs\<rparr>
        in if queue s = [] \<and> queueWaiting s = []
           then call (onComplete s) (Arr (processed s @ vs)) (t\<lparr>working := False\<rparr>)
           else if queueWaiting s = [] then dequeue (t\<lparr>working := False\<rparr>)
           else t\<lparr>working := False\<rparr>)
   \<and> (queue s = [] \<and> queueWaiting s = [] \<longrightarrow>
        processed (settle_batch k s) = processed s @ vs
        \<and> \<not> working (settle_batch k s)
        \<and> calls (settle_batch k s) = calls s @ [(onComplete s, Arr (processed s @ vs))])
   \<and> (queueWaiting s \<noteq> [] \<longrightarrow>
        processed (settle_batch k s) = processed s @ vs
        \<and> \<not> working (settle_batch k s)
        \<and> calls (settle_batch k s) = calls s
        \<and> length (batches (settle_batch k s)) = length (batches s)
        \<and> queue (settle_batch k s) = queue s)
   \<and> (queue s \<noteq> [] \<and> queueWaiting s = [] \<longrightarrow>
        calls (settle_batch k s) = calls s
        \<or> (\<exists>ex. calls (settle_batch k s) = calls s @ [(onError s, ex)]))"
proof -
  let ?t = "s\<lparr>batches := (batches s)[k := (batches s ! k)\<lparr>b_settled := True\<rparr>],
    processed := processed s @ vs, working := False\<rparr>"
  have "calls (dequeue ?t) = calls s \<or> (\<exists>ex. calls (dequeue ?t) = calls s @ [(onError s, ex)])"
    using dequeue_calls [of ?t] by simp
  then show ?thesis
    using assms
    by (simp add: all_outcome_resolved settle_batch_def on_fulfilled_def Let_def calls_call
        call_fields call_working_update)
qed

section \<open>Forced drain\<close>

text \<open>
  Claim C7. \<^verbatim>\<open>drain\<close> on an empty queue changes nothing. Otherwise (the concurrency not
  being 0) it clears every timeout recorded in the waiting list, which leaves no timeout
  when all of them are recorded there, empties the waiting list, and then calls
  \<^verbatim>\<open>_dequeue\<close>, each time after setting the busy flag to false, as many times as the floor
  of queue length by concurrency says, once when that is 0. An exception thrown while a
  batch is prepared is passed to the error callback by \<^verbatim>\<open>_dequeue\<close>; \<^verbatim>\<open>drain\<close> returns normally.
\<close>

theorem drain_forces_batches:
  "(queue s = [] \<longrightarrow> drain s = Some s)
   \<and> (queue s \<noteq> [] \<and> concurrency s \<noteq> 0 \<longrightarrow>
        drain s =
          Some (((\<lambda>t. dequeue (t\<lparr>working := False\<rparr>)) ^^
                   (if int (length (queue s)) div concurrency s = 0 then 1
                    else nat (int (length (queue s)) div concurrency s)))
                (s\<lparr>timers := filter (\<lambda>t. fst t \<notin> set (queueWaiting s)) (timers s),
                   queueWaiting := []\<rparr>)))
   \<and> (fst ` set (timers s) \<subseteq> set (queueWaiting s) \<longrightarrow>
        filter (\<lambda>t. fst t \<notin> set (queueWaiting s)) (timers s) = [])
   \<and> (dequeue_loop 0 (concurrency s) (queue s) [] = (q', Inl ex) \<longrightarrow>
        dequeue (s\<lparr>working := False\<rparr>) = call (onError s) ex (s\<lparr>queue := q', working := False\<rparr>))"
proof -
  have "filter (\<lambda>t. fst t \<notin> set (queueWaiting s)) (timers s) = []"
    if "fst ` set (timers s) \<subseteq> set (queueWaiting s)"
    using that by (auto simp: filter_empty_conv)
  then show ?thesis
    by (simp add: drain_def Let_def clear_waiting_filter drain_loop_funpow dequeue_def)
qed

theorem drain_forces_batches_witness:
  "drain (BlueBirdQueue None) = Some (BlueBirdQueue None)
   \<and> queue drain_example \<noteq> [] \<and> concurrency drain_example \<noteq> 0
   \<and> fst ` set (timers drain_example) \<subseteq> set (queueWaiting drain_example)
   \<and> drain drain_example =
       Some (drain_example\<lparr>queue := [], queueWaiting := [], timers := [],
          batches := [batch_of (Str ''hello'')]\<rparr>)
   \<and> dequeue ((BlueBirdQueue None)\<lparr>queue := [Fn (Throws (ErrorObj ''boom''))]\<rparr>) =
       (BlueBirdQueue None)\<lparr>calls := [(Noop, ErrorObj ''boom'')]\<rparr>"
proof -
  let ?t = "(BlueBirdQueue None)\<lparr>queue := [Fn (Throws (ErrorObj ''boom''))]\<rparr>"
  have loop: "dequeue_loop 0 (concurrency ?t) (queue ?t) [] = ([], Inl (ErrorObj ''boom''))"
    by (simp add: BlueBirdQueue_def no_options_def dequeue_loop.simps js_index_def)
  have same: "?t\<lparr>working := False\<rparr> = ?t"
    by (simp add: BlueBirdQueue_def)
  have one: "dequeue (drain_example\<lparr>timers := [], queueWaiting := [], working := False\<rparr>) =
      drain_example\<lparr>queue := [], queueWaiting := [], timers := [],
          batches := [batch_of (Str ''hello'')]\<rparr>"
    by (simp add: drain_example_def BlueBirdQueue_def no_options_def dequeue_def
        dequeue_loop.simps js_index_def deadPromise_def batch_of_def)
  show ?thesis
    using drain_forces_batches [of "BlueBirdQueue None" "[]" Undefined]
      drain_forces_batches [of drain_example "[]" Undefined]
      drain_forces_batches [of ?t "[]" "ErrorObj ''boom''"] loop same one
    by (simp add: BlueBirdQueue_def no_options_def drain_example_def)
qed

section \<open>The graceful path\<close>

text \<open>
  Claim C4, as the code has it. On a fresh object of positive concurrency, adding one by
  one at least one item, each a factory or thenable that succeeds, and then calling \<^verbatim>\<open>start\<close>: the
  scheduling loop comes to rest within one turn per item and one more, the promise
  \<^verbatim>\<open>start\<close> returned is fulfilled with the items' values in the order they were added, one
  batch after the other, and the completion callback was invoked that one time only.
\<close>

theorem graceful_results_in_order:
  assumes "map value_of items = map Some vs"
    and "items \<noteq> []"
    and "0 < concurrency (BlueBirdQueue options)"
    and "length items < n"
  shows "\<exists>s s'. add_each items (BlueBirdQueue options) = Inr s \<and> queue s = items \<and>
           run n (snd (start s)) = Some s' \<and>
           promises s' ! fst (start s) = Fulfilled (Arr vs) \<and>
           processed s' = vs \<and> queue s' = [] \<and>
           calls s' = [(Resolve (fst (start s)), Arr vs)] \<and>
           pending_events s' = []"
proof -
  define s where "s = (BlueBirdQueue options)\<lparr>queue := items\<rparr>"
  have added: "add_each items (BlueBirdQueue options) = Inr s"
    using add_each_work_items [OF assms(1), of "BlueBirdQueue options"]
    by (simp add: s_def BlueBirdQueue_def Let_def)
  have s: "idle s" "queue s = items" "processed s = []" "calls s = []"
    "concurrency s = concurrency (BlueBirdQueue options)"
    by (simp_all add: s_def idle_def BlueBirdQueue_def Let_def)
  from graceful_run_idle [OF s(1), of vs n] assms s
  obtain s' where "run n (snd (start s)) = Some s'"
    "promises s' ! fst (start s) = Fulfilled (Arr vs)" "processed s' = vs" "queue s' = []"
    "calls s' = [(Resolve (fst (start s)), Arr vs)]" "pending_events s' = []"
    by auto
  with added s(2) show ?thesis
    by blast
qed

theorem graceful_results_in_order_witness:
  "map value_of (map (\<lambda>n. deadPromise (Num n)) [1, 2, 3, 4, 5, 6, 7]) =
     map Some (map Num [1, 2, 3, 4, 5, 6, 7])
   \<and> 0 < concurrency (BlueBirdQueue None)
   \<and> (\<exists>s s'. add_each (map (\<lambda>n. deadPromise (Num n)) [1, 2, 3, 4, 5, 6, 7]) (BlueBirdQueue None) =
         Inr s \<and>
         run 8 (snd (start s)) = Some s' \<and>
         promises s' ! fst (start s) = Fulfilled (Arr (map Num [1, 2, 3, 4, 5, 6, 7])))"
proof -
  have vals: "map value_of (map (\<lambda>n. deadPromise (Num n)) [1, 2, 3, 4, 5, 6, 7]) =
      map Some (map Num [1, 2, 3, 4, 5, 6, 7])"
    by (simp add: value_of_def deadPromise_def)
  have conc: "0 < concurrency (BlueBirdQueue None)"
    by (simp add: BlueBirdQueue_def no_options_def)
  from graceful_results_in_order [OF vals _ conc, of 8] vals conc show ?thesis
    by auto
qed

text \<open>
  The claim as the specification states it covers the empty sequence too, and fails there:
  with nothing enqueued, \<^verbatim>\<open>start\<close> on a fresh object leaves the scheduling loop at rest after
  one turn with the promise pending and no callback invoked, where the claim has the
  promise resolved with the empty list.
\<close>

theorem start_nothing_enqueued_counterexample:
  "add_each [] (BlueBirdQueue None) = Inr (BlueBirdQueue None)
   \<and> fst (start (BlueBirdQueue None)) = 0
   \<and> map_option promises (run 1 (snd (start (BlueBirdQueue None)))) = Some [Pending]
   \<and> map_option calls (run 1 (snd (start (BlueBirdQueue None)))) = Some []
   \<and> map_option processed (run 1 (snd (start (BlueBirdQueue None)))) = Some []
   \<and> map_option pending_events (run 1 (snd (start (BlueBirdQueue None)))) = Some []"
  by code_simp

section \<open>Where the code departs from its specification\<close>

text \<open>
  In general: when the combined value of a batch rejects, the chain invokes the error
  callback it was built with, once, and touches nothing else; the busy flag in particular
  is what it was.
\<close>

lemma settle_failure:
  assumes "all_outcome (b_promises (batches s ! k)) = AllRejected e"
  shows "settle_batch k s =
           call (b_onError (batches s ! k)) e
             (s\<lparr>batches := (batches s)[k := (batches s ! k)\<lparr>b_settled := True\<rparr>]\<rparr>)"
    and "working (settle_batch k s) = working s"
    and "calls (settle_batch k s) = calls s @ [(b_onError (batches s ! k), e)]"
    and "queue (settle_batch k s) = queue s"
    and "length (batches (settle_batch k s)) = length (batches s)"
  using assms by (simp_all add: settle_batch_def Let_def call_fields calls_call)

text \<open>
  Claim C2. A queue holding one thenable that rejects, then \<^verbatim>\<open>start\<close>: the scheduling loop
  comes to rest after two turns, the error callback has been invoked once with the
  failure and the promise is rejected, but the busy flag is still set, since the chain's
  \<^verbatim>\<open>catch\<close> only calls the error callback. The \<^verbatim>\<open>catch\<close> around the preparation of a batch does
  clear the flag, as the last line shows for a factory that throws.
\<close>

theorem rejection_leaves_busy:
  "add (Thenable (Rejects (ErrorObj ''this failed''))) (BlueBirdQueue None) =
     Inr ((BlueBirdQueue None)\<lparr>queue := [Thenable (Rejects (ErrorObj ''this failed''))]\<rparr>)
   \<and> map_option (\<lambda>s. (working s, calls s, promises s, pending_events s))
       (run 2 (snd (start
          ((BlueBirdQueue None)\<lparr>queue := [Thenable (Rejects (ErrorObj ''this failed''))]\<rparr>)))) =
     Some (True, [(Reject 0, ErrorObj ''this failed'')], [Rejected (ErrorObj ''this failed'')], [])
   \<and> working (dequeue ((BlueBirdQueue None)\<lparr>queue := [Fn (Throws (ErrorObj ''boom''))]\<rparr>)) = False"
  by code_simp

text \<open>
  Claim C1. Seven factories added to a fresh object of the default concurrency 4, then
  \<^verbatim>\<open>start\<close>: the scheduling loop comes to rest after four turns, having dispatched three
  batches, of 4, 2 and 1 items, where the claim has two, of 4 and 3. The results are
  complete and in order all the same.
\<close>

theorem seven_items_three_batches:
  "add_each (map (\<lambda>n. deadPromise (Num n)) [1, 2, 3, 4, 5, 6, 7]) (BlueBirdQueue None) =
     Inr ((BlueBirdQueue None)\<lparr>queue := map (\<lambda>n. deadPromise (Num n)) [1, 2, 3, 4, 5, 6, 7]\<rparr>)
   \<and> map_option (\<lambda>s. (map (\<lambda>b. length (b_promises b)) (batches s), promises s))
       (run 4 (snd (start
          ((BlueBirdQueue None)\<lparr>queue := map (\<lambda>n. deadPromise (Num n)) [1, 2, 3, 4, 5, 6, 7]\<rparr>)))) =
     Some ([4, 2, 1], [Fulfilled (Arr (map Num [1, 2, 3, 4, 5, 6, 7]))])"
  by code_simp

text \<open>
  Claim C5. Eight factories on a fresh object and \<^verbatim>\<open>start\<close> called twice. The second
  scheduled dispatch finds the object busy and sets a retry timeout, whose handle stays
  in the waiting list after the timeout has fired. When the second batch then settles,
  the queue holds two items and no timeout is outstanding, yet \<^verbatim>\<open>_dequeue\<close> is not called
  again: the results are appended and the flag is cleared, and the scheduling loop is at
  rest with both items still queued, no callback invoked and both promises pending.
\<close>

theorem stale_handle_blocks_dispatch:
  "add_each (map (\<lambda>n. deadPromise (Num n)) [1, 2, 3, 4, 5, 6, 7, 8]) (BlueBirdQueue None) =
     Inr ((BlueBirdQueue None)\<lparr>queue := map (\<lambda>n. deadPromise (Num n)) [1, 2, 3, 4, 5, 6, 7, 8]\<rparr>)
   \<and> queue second_batch_in_flight = [deadPromise (Num 7), deadPromise (Num 8)]
   \<and> timers second_batch_in_flight = []
   \<and> queueWaiting second_batch_in_flight = [0]
   \<and> working second_batch_in_flight = True
   \<and> processed second_batch_in_flight = [Num 1, Num 2, Num 3, Num 4]
   \<and> map b_settled (batches second_batch_in_flight) = [True, False]
   \<and> all_outcome (b_promises (batches second_batch_in_flight ! 1)) = AllResolved [Num 5, Num 6]
   \<and> queue (settle_batch 1 second_batch_in_flight) = [deadPromise (Num 7), deadPromise (Num 8)]
   \<and> timers (settle_batch 1 second_batch_in_flight) = []
   \<and> working (settle_batch 1 second_batch_in_flight) = False
   \<and> processed (settle_batch 1 second_batch_in_flight) =
       [Num 1, Num 2, Num 3, Num 4, Num 5, Num 6]
   \<and> map b_settled (batches (settle_batch 1 second_batch_in_flight)) = [True, True]
   \<and> calls (settle_batch 1 second_batch_in_flight) = []
   \<and> promises (settle_batch 1 second_batch_in_flight) = [Pending, Pending]
   \<and> pending_events (settle_batch 1 second_batch_in_flight) = []
   \<and> run 5 twice_started = Some (settle_batch 1 second_batch_in_flight)"
  by code_simp

end
